theory Spec2Isabelle
  imports Main "HOL-Library.Word" "HOL-Library.AList"
begin

unbundle bit_operations_syntax

section \<open>The Go runtime and standard library, as far as the engine uses them\<close>

subsection \<open>Errors\<close>

text \<open>
  Go errors are values. \<open>ENOENT\<close> and \<open>EISDIR\<close> are the two ways in which opening or
  creating a file fails in this model of the operating system, \<open>ErrTooLong\<close> is
  \<^verbatim>\<open>bufio.ErrTooLong\<close>, and \<open>Errorf msg cause\<close> is \<^verbatim>\<open>fmt.Errorf(msg)\<close> or
  \<^verbatim>\<open>fmt.Errorf(msg + ": %w", cause)\<close>. \<open>Error\<close> gives the text of an error; for
  \<open>ENOENT\<close> and \<open>EISDIR\<close> it is the text of the system error alone, without the
  operation and the path that \<^verbatim>\<open>*fs.PathError\<close> prints before it. No statement below
  depends on the text.
\<close>

datatype error =
    ENOENT "string list"
  | EISDIR "string list"
  | ErrTooLong
  | Errorf string "error option"

fun Error :: "error \<Rightarrow> string" where
  "Error (ENOENT p) = ''no such file or directory''"
| "Error (EISDIR p) = ''is a directory''"
| "Error ErrTooLong = ''bufio.Scanner: token too long''"
| "Error (Errorf msg None) = msg"
| "Error (Errorf msg (Some e)) = msg @ '': '' @ Error e"

fun os_IsNotExist :: "error \<Rightarrow> bool" where
  "os_IsNotExist (ENOENT p) = True"
| "os_IsNotExist e = False"

subsection \<open>Maps and their iteration order\<close>

text \<open>
  A Go \<^verbatim>\<open>map[K]V\<close> is an association list with distinct keys: \<^verbatim>\<open>m[k] = v\<close> is
  \<open>AList.update k v m\<close>, \<^verbatim>\<open>v, ok := m[k]\<close> is \<open>map_of m k\<close>, \<^verbatim>\<open>delete(m, k)\<close> is
  \<open>AList.delete k m\<close> and \<^verbatim>\<open>len(m)\<close> is \<open>length m\<close>.

  Go leaves the order of \<^verbatim>\<open>for k, v := range m\<close> unspecified. Every loop over a map
  therefore takes the order the runtime picks as an argument: a list of numbers that
  selects, one after the other, which of the entries not yet visited comes next. Every
  such list yields a permutation of the entries, and every permutation is yielded by
  some list, so a statement that holds for all these arguments holds for every order Go
  may choose.
\<close>

type_synonym ('k, 'v) gomap = "('k \<times> 'v) list"

fun range_map :: "nat list \<Rightarrow> 'a list \<Rightarrow> 'a list" where
  "range_map [] xs = xs"
| "range_map (c # cs) xs =
     (if xs = [] then []
      else xs ! (c mod length xs) #
           range_map cs (take (c mod length xs) xs @ drop (Suc (c mod length xs)) xs))"

subsection \<open>Strings and formatting\<close>

definition digit_char :: "nat \<Rightarrow> char" where
  "digit_char d = ''0123456789'' ! d"

function digits :: "nat \<Rightarrow> string" where
  "digits n = (if n < 10 then [digit_char n] else digits (n div 10) @ [digit_char (n mod 10)])"
  by pat_completeness auto
termination
  by (relation "measure (\<lambda>n. n)") auto

text \<open>The verb \<^verbatim>\<open>%d\<close> of \<^verbatim>\<open>fmt.Sprintf\<close> on an \<^verbatim>\<open>int64\<close>.\<close>

definition itoa :: "int \<Rightarrow> string" where
  "itoa i = (if i < 0 then CHR ''-'' # digits (nat (- i)) else digits (nat i))"

text \<open>
  \<^verbatim>\<open>fmt.Sprintf("sstable_%d.dat", timestamp)\<close> and
  \<^verbatim>\<open>fmt.Sprintf("sstable_compacted_%d.dat", timestamp)\<close>.
\<close>

definition sstable_name :: "int \<Rightarrow> string" where
  "sstable_name t = ''sstable_'' @ itoa t @ ''.dat''"

definition compacted_name :: "int \<Rightarrow> string" where
  "compacted_name t = ''sstable_compacted_'' @ itoa t @ ''.dat''"

text \<open>\<^verbatim>\<open>strings.SplitN(s, ",", 2)\<close>: at most two parts, cut at the first comma.\<close>

definition SplitN2 :: "string \<Rightarrow> string list" where
  "SplitN2 s =
     (if CHR '','' \<in> set s
      then [takeWhile (\<lambda>c. c \<noteq> CHR '','') s, tl (dropWhile (\<lambda>c. c \<noteq> CHR '','') s)]
      else [s])"

subsection \<open>bufio.Scanner with the default split function ScanLines\<close>

definition MaxScanTokenSize :: nat where
  "MaxScanTokenSize = 64 * 1024"

definition dropCR :: "string \<Rightarrow> string" where
  "dropCR data = (if data \<noteq> [] \<and> last data = CHR 0x0D then butlast data else data)"

text \<open>
  One call of \<^verbatim>\<open>scanner.Scan()\<close> on the unread input. A line ends at the first
  \<^verbatim>\<open>\n\<close>, or at the end of the input when the last line is not terminated; one trailing
  \<^verbatim>\<open>\r\<close> is dropped. The scanner's buffer grows to \<open>MaxScanTokenSize\<close> bytes and no
  further: a line that does not end within a full buffer makes \<open>Scan\<close> return false
  with \<open>ErrTooLong\<close>.
\<close>

datatype scan_result = Token string string | AtEOF | TooLong

definition Scan :: "string \<Rightarrow> scan_result" where
  "Scan data =
     (if data = [] then AtEOF
      else let line = takeWhile (\<lambda>c. c \<noteq> CHR 0x0A) data in
        if length line \<ge> MaxScanTokenSize then TooLong
        else Token (dropCR line) (drop (Suc (length line)) data))"

text \<open>
  \<^verbatim>\<open>for scanner.Scan() { ... scanner.Text() ... }\<close> followed by \<^verbatim>\<open>scanner.Err()\<close>:
  the lines the loop body sees, and the error the scanner ends with.
\<close>

function scan_lines :: "string \<Rightarrow> string list \<times> error option" where
  "scan_lines data =
     (if data = [] then ([], None)
      else if length (takeWhile (\<lambda>c. c \<noteq> CHR 0x0A) data) \<ge> MaxScanTokenSize
        then ([], Some ErrTooLong)
      else (case scan_lines (drop (Suc (length (takeWhile (\<lambda>c. c \<noteq> CHR 0x0A) data))) data) of
              (ts, e) \<Rightarrow> (dropCR (takeWhile (\<lambda>c. c \<noteq> CHR 0x0A) data) # ts, e)))"
  by pat_completeness auto
termination
  by (relation "measure length") auto

subsection \<open>The file system\<close>

text \<open>
  A path is the list of its components, so \<^verbatim>\<open>filepath.Join(dir, name)\<close> with a name
  of one component is \<open>dir @ [name]\<close>. The file system holds the regular files with their
  contents and the set of directories. It is reliable: a call fails only when a file or
  the directory that is to hold it does not exist, or when the name is that of a
  directory.
\<close>

type_synonym path = "string list"

record FileSystem =
  files :: "path \<rightharpoonup> string"
  dirs :: "path set"

definition filepath_Join :: "path \<Rightarrow> string \<Rightarrow> path" where
  "filepath_Join dir name = dir @ [name]"

text \<open>\<^verbatim>\<open>os.Create\<close>: create or truncate.\<close>

definition os_Create :: "path \<Rightarrow> FileSystem \<Rightarrow> error + FileSystem" where
  "os_Create name fs =
     (if name \<in> dirs fs then Inl (EISDIR name)
      else if butlast name \<notin> dirs fs then Inl (ENOENT name)
      else Inr (fs\<lparr>files := (files fs)(name \<mapsto> [])\<rparr>))"

text \<open>
  \<^verbatim>\<open>os.Open\<close>, with everything a reader then reads from the file. The model covers
  the two cases the engine meets on its own data directory, a regular file and a missing
  file. It does not cover a name that is a directory (there \<^verbatim>\<open>os.Open\<close> succeeds and
  the first read fails) nor a name below a regular file (there \<^verbatim>\<open>os.Open\<close> fails with
  an error that \<^verbatim>\<open>os.IsNotExist\<close> rejects); in both cases \<open>os_Open\<close> answers
  \<open>ENOENT\<close>. The statements about the log and the segments below are about paths that
  are regular files or missing in a directory that exists.
\<close>

definition os_Open :: "path \<Rightarrow> FileSystem \<Rightarrow> error + string" where
  "os_Open name fs = (case files fs name of None \<Rightarrow> Inl (ENOENT name) | Some c \<Rightarrow> Inr c)"

text \<open>\<^verbatim>\<open>os.OpenFile(name, os.O_APPEND|os.O_CREATE|os.O_WRONLY, 0600)\<close>.\<close>

definition os_OpenFile_append :: "path \<Rightarrow> FileSystem \<Rightarrow> error + FileSystem" where
  "os_OpenFile_append name fs =
     (if name \<in> dirs fs then Inl (EISDIR name)
      else if butlast name \<notin> dirs fs then Inl (ENOENT name)
      else case files fs name of
        Some c \<Rightarrow> Inr fs
      | None \<Rightarrow> Inr (fs\<lparr>files := (files fs)(name \<mapsto> [])\<rparr>))"

text \<open>\<^verbatim>\<open>file.WriteString\<close> on a file opened for appending.\<close>

definition WriteString :: "path \<Rightarrow> string \<Rightarrow> FileSystem \<Rightarrow> FileSystem" where
  "WriteString name s fs =
     fs\<lparr>files := (files fs)(name \<mapsto> (case files fs name of None \<Rightarrow> s | Some c \<Rightarrow> c @ s))\<rparr>"

definition os_Stat :: "path \<Rightarrow> FileSystem \<Rightarrow> error option" where
  "os_Stat name fs = (if files fs name = None \<and> name \<notin> dirs fs then Some (ENOENT name) else None)"

definition os_Truncate0 :: "path \<Rightarrow> FileSystem \<Rightarrow> error option \<times> FileSystem" where
  "os_Truncate0 name fs =
     (if name \<in> dirs fs then (Some (EISDIR name), fs)
      else if files fs name = None then (Some (ENOENT name), fs)
      else (None, fs\<lparr>files := (files fs)(name \<mapsto> [])\<rparr>))"

definition os_Remove :: "path \<Rightarrow> FileSystem \<Rightarrow> error option \<times> FileSystem" where
  "os_Remove name fs =
     (if files fs name = None then (Some (ENOENT name), fs)
      else (None, fs\<lparr>files := (files fs)(name := None)\<rparr>))"

subsection \<open>sync.RWMutex\<close>

text \<open>
  The lock as one goroutine sees it. \<open>Lock\<close> and \<open>RLock\<close> return the new state of the
  mutex, or \<open>None\<close> when the call blocks: a call that blocks on a lock its own goroutine
  holds never returns.
\<close>

datatype RWMutex = Unlocked | RLocked nat | Locked

text \<open>\<open>RLocked n\<close>: \<open>n + 1\<close> readers hold the lock.\<close>

fun Lock :: "RWMutex \<Rightarrow> RWMutex option" where
  "Lock Unlocked = Some Locked"
| "Lock m = None"

fun Unlock :: "RWMutex \<Rightarrow> RWMutex" where
  "Unlock m = Unlocked"

fun RLock :: "RWMutex \<Rightarrow> RWMutex option" where
  "RLock Unlocked = Some (RLocked 0)"
| "RLock (RLocked n) = Some (RLocked (Suc n))"
| "RLock Locked = None"

fun RUnlock :: "RWMutex \<Rightarrow> RWMutex" where
  "RUnlock (RLocked (Suc n)) = RLocked n"
| "RUnlock m = Unlocked"

text \<open>
  \<open>Unlock\<close> and \<open>RUnlock\<close> are only ever called by the holder of the lock (every
  method of the engine pairs them with \<open>Lock\<close> and \<open>RLock\<close> through \<^verbatim>\<open>defer\<close>).
\<close>

subsection \<open>What the runtime chooses during one operation\<close>

text \<open>
  \<open>now i\<close> is the reading of the clock at the \<open>i\<close>-th call of \<^verbatim>\<open>time.Now()\<close> in the
  text of the operation, \<open>order i\<close> the iteration order of its \<open>i\<close>-th loop over a map. The
  numbering is fixed per operation and given with each definition below.
\<close>

record Env =
  now :: "nat \<Rightarrow> int"
  order :: "nat \<Rightarrow> nat list"

section \<open>The membership filter\<close>

record BloomFilter =
  bitArray :: "bool list"
  size_bf :: nat
  hashFuncs :: nat

definition NewBloomFilter :: BloomFilter where
  "NewBloomFilter = \<lparr>bitArray = replicate 2097152 False, size_bf = 2097152, hashFuncs = 7\<rparr>"

text \<open>
  \<^verbatim>\<open>hash/fnv\<close>'s 64-bit FNV-1a: \<^verbatim>\<open>Write\<close> folds every byte into the state by xor and
  a multiplication with the FNV prime, modulo \<open>2^64\<close>; \<^verbatim>\<open>New64a\<close> starts from the offset
  basis.
\<close>

definition fnv_New64a :: "64 word" where
  "fnv_New64a = 14695981039346656037"

definition fnv_Write :: "64 word \<Rightarrow> string \<Rightarrow> 64 word" where
  "fnv_Write h bs = foldl (\<lambda>h c. (h XOR of_char c) * 1099511628211) h bs"

text \<open>\<^verbatim>\<open>byte(seed)\<close> keeps the low eight bits of the seed, as \<open>char_of\<close> does.\<close>

definition hash :: "BloomFilter \<Rightarrow> string \<Rightarrow> nat \<Rightarrow> nat" where
  "hash bf key seed =
     unat (fnv_Write (fnv_Write fnv_New64a key) [char_of seed] mod word_of_nat (size_bf bf))"

definition Add :: "BloomFilter \<Rightarrow> string \<Rightarrow> BloomFilter" where
  "Add bf key =
     foldl (\<lambda>b i. b\<lparr>bitArray := (bitArray b)[hash b key i := True]\<rparr>) bf [0..<hashFuncs bf]"

definition MightContain :: "BloomFilter \<Rightarrow> string \<Rightarrow> bool" where
  "MightContain bf key = list_all (\<lambda>i. bitArray bf ! hash bf key i) [0..<hashFuncs bf]"

text \<open>
  Go checks every index into \<open>bitArray\<close>. The check never fires on a filter made by
  \<open>NewBloomFilter\<close>: the array has \<open>size_bf\<close> elements and \<open>hash\<close> is a remainder modulo
  \<open>size_bf\<close> (lemma \<open>hash_in_range\<close> below).
\<close>

definition bf_wf :: "BloomFilter \<Rightarrow> bool" where
  "bf_wf bf = (length (bitArray bf) = size_bf bf \<and> 0 < size_bf bf \<and> size_bf bf < 2 ^ 64)"

section \<open>The recency cache\<close>

record CacheEntry =
  value_e :: string
  timestamp :: int

text \<open>Go's \<^verbatim>\<open>int\<close> is a 64-bit word read as a signed number.\<close>

record Cache =
  entries :: "(string, CacheEntry) gomap"
  maxSize :: int
  accessCount :: "(string, 64 word) gomap"

definition NewCache :: "int \<Rightarrow> Cache" where
  "NewCache n = \<lparr>entries = [], maxSize = n, accessCount = []\<rparr>"

text \<open>\<^verbatim>\<open>int(^uint(0) >> 1)\<close>, the largest \<^verbatim>\<open>int\<close>.\<close>

definition MaxInt :: "64 word" where
  "MaxInt = 0x7FFFFFFFFFFFFFFF"

text \<open>
  The body of the loop of \<open>evict\<close> over \<open>accessCount\<close>, on the pair
  \<open>(leastAccessed, minCount)\<close>.
\<close>

definition evict_step :: "string \<times> 64 word \<Rightarrow> string \<times> 64 word \<Rightarrow> string \<times> 64 word" where
  "evict_step acc kc =
     (case (acc, kc) of ((leastAccessed, minCount), (key, count)) \<Rightarrow>
        if count <s minCount then (key, count) else (leastAccessed, minCount))"

definition evict :: "nat list \<Rightarrow> Cache \<Rightarrow> Cache" where
  "evict ord c =
     (let leastAccessed = fst (foldl evict_step ('''', MaxInt) (range_map ord (accessCount c)))
      in c\<lparr>entries := AList.delete leastAccessed (entries c),
            accessCount := AList.delete leastAccessed (accessCount c)\<rparr>)"

definition cache_Set :: "nat list \<Rightarrow> int \<Rightarrow> string \<Rightarrow> string \<Rightarrow> Cache \<Rightarrow> Cache" where
  "cache_Set ord t key val c =
     (let c1 = (if int (length (entries c)) \<ge> maxSize c then evict ord c else c)
      in c1\<lparr>entries := AList.update key \<lparr>value_e = val, timestamp = t\<rparr> (entries c1),
             accessCount := AList.update key 1 (accessCount c1)\<rparr>)"

definition cache_Get :: "string \<Rightarrow> Cache \<Rightarrow> (string \<times> bool) \<times> Cache" where
  "cache_Get key c =
     (case map_of (entries c) key of
        Some entry \<Rightarrow>
          ((value_e entry, True),
           c\<lparr>accessCount :=
                AList.update key ((case map_of (accessCount c) key of Some n \<Rightarrow> n | None \<Rightarrow> 0) + 1)
                  (accessCount c)\<rparr>)
      | None \<Rightarrow> (('''', False), c))"

section \<open>The write buffer\<close>

record MemTable =
  data :: "(string, string) gomap"

definition NewMemTable :: MemTable where
  "NewMemTable = \<lparr>data = []\<rparr>"

definition MemTable_Set :: "string \<Rightarrow> string \<Rightarrow> MemTable \<Rightarrow> MemTable" where
  "MemTable_Set key val m = m\<lparr>data := AList.update key val (data m)\<rparr>"

definition MemTable_Get :: "string \<Rightarrow> MemTable \<Rightarrow> string \<times> bool" where
  "MemTable_Get key m = (case map_of (data m) key of Some v \<Rightarrow> (v, True) | None \<Rightarrow> ('''', False))"

definition MemTable_Delete :: "string \<Rightarrow> MemTable \<Rightarrow> MemTable" where
  "MemTable_Delete key m = m\<lparr>data := AList.delete key (data m)\<rparr>"

definition MemTable_Size :: "MemTable \<Rightarrow> nat" where
  "MemTable_Size m = length (data m)"

definition Entries :: "MemTable \<Rightarrow> (string, string) gomap" where
  "Entries m = data m"

section \<open>Segments\<close>

record SSTable =
  filePath :: path
  bloomFilter :: BloomFilter
  index :: "(string, nat) gomap"

text \<open>\<^verbatim>\<open>fmt.Sprintf("%s,%s\n", key, value)\<close>.\<close>

definition entry_line :: "string \<Rightarrow> string \<Rightarrow> string" where
  "entry_line key val = key @ '','' @ val @ [CHR 0x0A]"

text \<open>
  The body of the loop of \<open>NewSSTable\<close> over the entries of the buffer, on the bytes
  written so far, the filter, the index and the offset.
\<close>

definition sstable_step ::
  "string \<times> BloomFilter \<times> (string, nat) gomap \<times> nat \<Rightarrow> string \<times> string
     \<Rightarrow> string \<times> BloomFilter \<times> (string, nat) gomap \<times> nat" where
  "sstable_step acc kv =
     (case (acc, kv) of ((out, bf, idx, offset), (key, val)) \<Rightarrow>
        (out @ entry_line key val, Add bf key, AList.update key offset idx,
         offset + length (entry_line key val)))"

text \<open>
  \<open>NewSSTable dataDir ord t memTable\<close>: \<open>t\<close> is \<^verbatim>\<open>time.Now().UnixNano()\<close>, \<open>ord\<close> the
  order of the loop over \<^verbatim>\<open>memTable.Entries()\<close>. The buffered writer hands its bytes to
  the file at \<^verbatim>\<open>Flush\<close>; the file is closed on return.
\<close>

definition NewSSTable ::
  "path \<Rightarrow> nat list \<Rightarrow> int \<Rightarrow> MemTable \<Rightarrow> FileSystem \<Rightarrow> (error + SSTable) \<times> FileSystem" where
  "NewSSTable dir ord t m fs =
     (let name = filepath_Join dir (sstable_name t) in
      case os_Create name fs of
        Inl e \<Rightarrow> (Inl (Errorf ''failed to create SSTable file'' (Some e)), fs)
      | Inr fs1 \<Rightarrow>
          (case foldl sstable_step ([], NewBloomFilter, [], 0) (range_map ord (Entries m)) of
             (out, bf, idx, offset) \<Rightarrow>
               (Inr \<lparr>filePath = name, bloomFilter = bf, index = idx\<rparr>,
                WriteString name out fs1)))"

definition SSTable_Get :: "string \<Rightarrow> SSTable \<Rightarrow> FileSystem \<Rightarrow> error + string" where
  "SSTable_Get key s fs =
     (if \<not> MightContain (bloomFilter s) key then Inr ''''
      else case map_of (index s) key of
        None \<Rightarrow> Inr ''''
      | Some offset \<Rightarrow>
          (case os_Open (filePath s) fs of
             Inl e \<Rightarrow> Inl (Errorf ''failed to open SSTable file'' (Some e))
           | Inr content \<Rightarrow>
               (case Scan (drop offset content) of
                  Token line rest \<Rightarrow>
                    (let parts = SplitN2 line in
                     if length parts = 2 \<and> parts ! 0 = key then Inr (parts ! 1) else Inr '''')
                | AtEOF \<Rightarrow> Inr ''''
                | TooLong \<Rightarrow> Inr '''')))"

definition FilePath :: "SSTable \<Rightarrow> path" where
  "FilePath s = filePath s"

text \<open>The body of the loop of \<open>SSTable.List\<close> over the lines of the file.\<close>

definition list_step :: "(string, string) gomap \<Rightarrow> string \<Rightarrow> (string, string) gomap" where
  "list_step result line =
     (let parts = SplitN2 line in
      if length parts = 2
      then (if parts ! 1 \<noteq> '''' then AList.update (parts ! 0) (parts ! 1) result else result)
      else result)"

definition SSTable_List :: "SSTable \<Rightarrow> FileSystem \<Rightarrow> error + (string, string) gomap" where
  "SSTable_List s fs =
     (case os_Open (filePath s) fs of
        Inl e \<Rightarrow> Inl (Errorf ''failed to open SSTable file'' (Some e))
      | Inr content \<Rightarrow>
          (case scan_lines content of
             (lines, Some e) \<Rightarrow> Inl (Errorf ''failed to read SSTable'' (Some e))
           | (lines, None) \<Rightarrow> Inr (foldl list_step [] lines)))"

section \<open>The write-ahead log\<close>

record WAL =
  filePath_wal :: path

definition NewWAL :: "path \<Rightarrow> WAL" where
  "NewWAL dir = \<lparr>filePath_wal = filepath_Join dir ''wal.log''\<rparr>"

definition WAL_Log :: "WAL \<Rightarrow> string \<Rightarrow> string \<Rightarrow> FileSystem \<Rightarrow> error option \<times> FileSystem" where
  "WAL_Log w key val fs =
     (case os_OpenFile_append (filePath_wal w) fs of
        Inl e \<Rightarrow> (Some (Errorf ''failed to open WAL file'' (Some e)), fs)
      | Inr fs1 \<Rightarrow> (None, WriteString (filePath_wal w) (entry_line key val) fs1))"

text \<open>The body of the loop of \<open>WAL.Recover\<close> over the lines of the log.\<close>

definition recover_step :: "(string, string) gomap \<Rightarrow> string \<Rightarrow> (string, string) gomap" where
  "recover_step es line =
     (let parts = SplitN2 line in
      if length parts = 2 then AList.update (parts ! 0) (parts ! 1) es else es)"

definition WAL_Recover :: "WAL \<Rightarrow> FileSystem \<Rightarrow> error + (string, string) gomap" where
  "WAL_Recover w fs =
     (case os_Open (filePath_wal w) fs of
        Inl e \<Rightarrow>
          (if os_IsNotExist e then Inr [] else Inl (Errorf ''failed to open WAL file'' (Some e)))
      | Inr content \<Rightarrow>
          (case scan_lines content of
             (lines, Some e) \<Rightarrow> Inl (Errorf ''failed to read WAL'' (Some e))
           | (lines, None) \<Rightarrow> Inr (foldl recover_step [] lines)))"

definition WAL_Clear :: "WAL \<Rightarrow> FileSystem \<Rightarrow> error option \<times> FileSystem" where
  "WAL_Clear w fs =
     (case os_Stat (filePath_wal w) fs of
        Some e \<Rightarrow> (if os_IsNotExist e then (None, fs) else os_Truncate0 (filePath_wal w) fs)
      | None \<Rightarrow> os_Truncate0 (filePath_wal w) fs)"

section \<open>The engine\<close>

definition memTableSizeThreshold :: nat where
  "memTableSizeThreshold = 1024 * 1024"

record LSMTree =
  dataDir :: path
  memTable :: MemTable
  ssTables :: "SSTable list"
  wal :: WAL
  mutex :: RWMutex
  cache :: Cache

text \<open>
  What an operation of the engine reads and changes: the engine itself, the file
  system, and the number of goroutines started by \<^verbatim>\<open>go l.triggerCompaction()\<close> that
  have not run yet.
\<close>

record World =
  tree :: LSMTree
  disk :: FileSystem
  compactions :: nat

definition NewLSMTree :: "path \<Rightarrow> LSMTree" where
  "NewLSMTree dir =
     \<lparr>dataDir = dir, memTable = NewMemTable, ssTables = [], wal = NewWAL dir,
      mutex = Unlocked, cache = NewCache 1000\<rparr>"

text \<open>
  \<open>flushMemTable\<close>: \<open>order env 1\<close> and \<open>now env 1\<close> are the order and the clock of
  \<open>NewSSTable\<close>.
\<close>

definition flushMemTable :: "Env \<Rightarrow> World \<Rightarrow> error option \<times> World" where
  "flushMemTable env w =
     (case NewSSTable (dataDir (tree w)) (order env 1) (now env 1) (memTable (tree w)) (disk w) of
        (Inl e, fs) \<Rightarrow> (Some (Errorf ''failed to create SSTable'' (Some e)), w\<lparr>disk := fs\<rparr>)
      | (Inr ssTable, fs) \<Rightarrow>
          (None,
           w\<lparr>tree := (tree w)\<lparr>ssTables := ssTables (tree w) @ [ssTable], memTable := NewMemTable\<rparr>,
             disk := fs,
             compactions := Suc (compactions w)\<rparr>))"

text \<open>
  \<open>Set\<close> between \<^verbatim>\<open>l.mutex.Lock()\<close> and the deferred \<^verbatim>\<open>l.mutex.Unlock()\<close>:
  \<open>order env 0\<close> and \<open>now env 0\<close> are the order of the loop of \<open>evict\<close> and the clock
  of \<open>Cache.Set\<close>.
\<close>

definition Set_locked :: "Env \<Rightarrow> string \<Rightarrow> string \<Rightarrow> World \<Rightarrow> error option \<times> World" where
  "Set_locked env key val w =
     (case WAL_Log (wal (tree w)) key val (disk w) of
        (Some e, fs) \<Rightarrow> (Some (Errorf ''failed to log to WAL'' (Some e)), w\<lparr>disk := fs\<rparr>)
      | (None, fs) \<Rightarrow>
          (let w1 = w\<lparr>tree := (tree w)\<lparr>memTable := MemTable_Set key val (memTable (tree w)),
                                         cache := cache_Set (order env 0) (now env 0) key val
                                                    (cache (tree w))\<rparr>,
                       disk := fs\<rparr>
           in if MemTable_Size (memTable (tree w1)) \<ge> memTableSizeThreshold
              then (case flushMemTable env w1 of
                      (Some e, w2) \<Rightarrow> (Some (Errorf ''failed to flush memtable'' (Some e)), w2)
                    | (None, w2) \<Rightarrow> (None, w2))
              else (None, w1)))"

text \<open>
  An operation returns \<open>None\<close> when it never returns: it blocks on the mutex. The
  deferred unlock runs on every return.
\<close>

definition LSMTree_Set :: "Env \<Rightarrow> string \<Rightarrow> string \<Rightarrow> World \<Rightarrow> (error option \<times> World) option" where
  "LSMTree_Set env key val w =
     (case Lock (mutex (tree w)) of
        None \<Rightarrow> None
      | Some mu \<Rightarrow>
          (case Set_locked env key val (w\<lparr>tree := (tree w)\<lparr>mutex := mu\<rparr>\<rparr>) of
             (r, w1) \<Rightarrow> Some (r, w1\<lparr>tree := (tree w1)\<lparr>mutex := Unlock (mutex (tree w1))\<rparr>\<rparr>)))"

text \<open>The loop of \<open>Get\<close> over the segments, newest first.\<close>

fun Get_ssTables :: "Env \<Rightarrow> string \<Rightarrow> SSTable list \<Rightarrow> World \<Rightarrow> (string \<times> error option) \<times> World" where
  "Get_ssTables env key [] w = (('''', None), w)"
| "Get_ssTables env key (s # ss) w =
     (case SSTable_Get key s (disk w) of
        Inl e \<Rightarrow> (('''', Some (Errorf ''failed to get value from SSTable'' (Some e))), w)
      | Inr val \<Rightarrow>
          if val \<noteq> ''''
          then ((val, None),
                w\<lparr>tree := (tree w)\<lparr>cache := cache_Set (order env 0) (now env 0) key val
                                                (cache (tree w))\<rparr>\<rparr>)
          else Get_ssTables env key ss w)"

definition Get_locked :: "Env \<Rightarrow> string \<Rightarrow> World \<Rightarrow> (string \<times> error option) \<times> World" where
  "Get_locked env key w =
     (case cache_Get key (cache (tree w)) of
        ((val, True), c) \<Rightarrow> ((val, None), w\<lparr>tree := (tree w)\<lparr>cache := c\<rparr>\<rparr>)
      | ((val, False), c) \<Rightarrow>
          (case MemTable_Get key (memTable (tree w)) of
             (val, True) \<Rightarrow>
               ((val, None),
                w\<lparr>tree := (tree w)\<lparr>cache := cache_Set (order env 0) (now env 0) key val c\<rparr>\<rparr>)
           | (val, False) \<Rightarrow>
               Get_ssTables env key (rev (ssTables (tree w))) (w\<lparr>tree := (tree w)\<lparr>cache := c\<rparr>\<rparr>)))"

definition LSMTree_Get ::
  "Env \<Rightarrow> string \<Rightarrow> World \<Rightarrow> ((string \<times> error option) \<times> World) option" where
  "LSMTree_Get env key w =
     (case RLock (mutex (tree w)) of
        None \<Rightarrow> None
      | Some mu \<Rightarrow>
          (case Get_locked env key (w\<lparr>tree := (tree w)\<lparr>mutex := mu\<rparr>\<rparr>) of
             (r, w1) \<Rightarrow> Some (r, w1\<lparr>tree := (tree w1)\<lparr>mutex := RUnlock (mutex (tree w1))\<rparr>\<rparr>)))"

text \<open>
  \<open>Delete\<close> takes the write lock and then calls the public \<open>Get\<close> and \<open>Set\<close>, which
  take the lock themselves. \<open>env\<close> is what the runtime chooses during the call of
  \<open>Get\<close>, \<open>env'\<close> during the call of \<open>Set\<close>.
\<close>

definition LSMTree_Delete :: "Env \<Rightarrow> Env \<Rightarrow> string \<Rightarrow> World \<Rightarrow> (error option \<times> World) option" where
  "LSMTree_Delete env env' key w =
     (case Lock (mutex (tree w)) of
        None \<Rightarrow> None
      | Some mu \<Rightarrow>
          (case LSMTree_Get env key (w\<lparr>tree := (tree w)\<lparr>mutex := mu\<rparr>\<rparr>) of
             None \<Rightarrow> None
           | Some ((val, Some e), w1) \<Rightarrow>
               Some (Some (Errorf ''failed to check key existence'' (Some e)),
                     w1\<lparr>tree := (tree w1)\<lparr>mutex := Unlock (mutex (tree w1))\<rparr>\<rparr>)
           | Some ((val, None), w1) \<Rightarrow>
               if val = ''''
               then Some (Some (Errorf ''key not found'' None),
                          w1\<lparr>tree := (tree w1)\<lparr>mutex := Unlock (mutex (tree w1))\<rparr>\<rparr>)
               else (case LSMTree_Set env' key '''' w1 of
                       None \<Rightarrow> None
                     | Some (Some e, w2) \<Rightarrow>
                         Some (Some (Errorf ''failed to mark key as deleted'' (Some e)),
                               w2\<lparr>tree := (tree w2)\<lparr>mutex := Unlock (mutex (tree w2))\<rparr>\<rparr>)
                     | Some (None, w2) \<Rightarrow>
                         Some (None, w2\<lparr>tree := (tree w2)\<lparr>mutex := Unlock (mutex (tree w2))\<rparr>\<rparr>))))"

text \<open>\<open>Recover\<close>: \<open>order env 0\<close> is the order of the loop over the recovered entries.\<close>

definition Recover_locked :: "Env \<Rightarrow> World \<Rightarrow> error option \<times> World" where
  "Recover_locked env w =
     (case WAL_Recover (wal (tree w)) (disk w) of
        Inl e \<Rightarrow> (Some (Errorf ''failed to recover from WAL'' (Some e)), w)
      | Inr es \<Rightarrow>
          (let w1 = w\<lparr>tree := (tree w)\<lparr>memTable :=
                          foldl (\<lambda>m kv. MemTable_Set (fst kv) (snd kv) m) (memTable (tree w))
                            (range_map (order env 0) es)\<rparr>\<rparr>
           in if length es > 0
              then (case WAL_Clear (wal (tree w1)) (disk w1) of
                      (Some e, fs) \<Rightarrow> (Some (Errorf ''failed to clear WAL'' (Some e)), w1\<lparr>disk := fs\<rparr>)
                    | (None, fs) \<Rightarrow> (None, w1\<lparr>disk := fs\<rparr>))
              else (None, w1)))"

definition LSMTree_Recover :: "Env \<Rightarrow> World \<Rightarrow> (error option \<times> World) option" where
  "LSMTree_Recover env w =
     (case Lock (mutex (tree w)) of
        None \<Rightarrow> None
      | Some mu \<Rightarrow>
          (case Recover_locked env (w\<lparr>tree := (tree w)\<lparr>mutex := mu\<rparr>\<rparr>) of
             (r, w1) \<Rightarrow> Some (r, w1\<lparr>tree := (tree w1)\<lparr>mutex := Unlock (mutex (tree w1))\<rparr>\<rparr>)))"

text \<open>
  \<open>List\<close>: \<open>order env 0\<close> is the order of the loop over the buffer, \<open>order env (Suc i)\<close>
  the order of the loop over the entries of the \<open>i\<close>-th segment visited (the newest is
  visited first).
\<close>

definition list_memTable_step :: "(string, string) gomap \<Rightarrow> string \<times> string \<Rightarrow> (string, string) gomap" where
  "list_memTable_step result kv =
     (if snd kv \<noteq> '''' then AList.update (fst kv) (snd kv) result else result)"

definition list_ssTable_step :: "(string, string) gomap \<Rightarrow> string \<times> string \<Rightarrow> (string, string) gomap" where
  "list_ssTable_step result kv =
     (if map_of result (fst kv) = None
      then (if snd kv \<noteq> '''' then AList.update (fst kv) (snd kv) result else result)
      else result)"

fun List_ssTables ::
  "Env \<Rightarrow> nat \<Rightarrow> SSTable list \<Rightarrow> FileSystem \<Rightarrow> (string, string) gomap
     \<Rightarrow> error + (string, string) gomap" where
  "List_ssTables env i [] fs result = Inr result"
| "List_ssTables env i (s # ss) fs result =
     (case SSTable_List s fs of
        Inl e \<Rightarrow> Inl (Errorf ''failed to list entries from SSTable'' (Some e))
      | Inr es \<Rightarrow>
          List_ssTables env (Suc i) ss fs
            (foldl list_ssTable_step result (range_map (order env (Suc i)) es)))"

definition List_locked :: "Env \<Rightarrow> World \<Rightarrow> (error + (string, string) gomap) \<times> World" where
  "List_locked env w =
     (List_ssTables env 0 (rev (ssTables (tree w))) (disk w)
        (foldl list_memTable_step [] (range_map (order env 0) (Entries (memTable (tree w))))),
      w)"

definition LSMTree_List ::
  "Env \<Rightarrow> World \<Rightarrow> ((error + (string, string) gomap) \<times> World) option" where
  "LSMTree_List env w =
     (case RLock (mutex (tree w)) of
        None \<Rightarrow> None
      | Some mu \<Rightarrow>
          (case List_locked env (w\<lparr>tree := (tree w)\<lparr>mutex := mu\<rparr>\<rparr>) of
             (r, w1) \<Rightarrow> Some (r, w1\<lparr>tree := (tree w1)\<lparr>mutex := RUnlock (mutex (tree w1))\<rparr>\<rparr>)))"

text \<open>
  \<open>compactSSTables\<close>: \<open>order env 0\<close> and \<open>order env 1\<close> are the orders of the loops over
  the entries of the two segments, \<open>order env 2\<close> of the loop over the merged entries,
  \<open>order env 3\<close> of the loop of \<open>NewSSTable\<close>; \<open>now env 0\<close> is the clock of
  \<open>compactSSTables\<close> and \<open>now env 1\<close> the clock of \<open>NewSSTable\<close>.
\<close>

definition merge_step :: "(string, string) gomap \<Rightarrow> string \<times> string \<Rightarrow> (string, string) gomap" where
  "merge_step merged kv = AList.update (fst kv) (snd kv) merged"

definition compactSSTables ::
  "Env \<Rightarrow> LSMTree \<Rightarrow> SSTable \<Rightarrow> SSTable \<Rightarrow> FileSystem \<Rightarrow> (error + SSTable) \<times> FileSystem" where
  "compactSSTables env l ssTable1 ssTable2 fs =
     (case SSTable_List ssTable1 fs of
        Inl e \<Rightarrow> (Inl (Errorf ''failed to list entries from SSTable'' (Some e)), fs)
      | Inr es1 \<Rightarrow>
          (case SSTable_List ssTable2 fs of
             Inl e \<Rightarrow> (Inl (Errorf ''failed to list entries from SSTable'' (Some e)), fs)
           | Inr es2 \<Rightarrow>
               (let mergedEntries =
                      foldl merge_step (foldl merge_step [] (range_map (order env 0) es1))
                        (range_map (order env 1) es2);
                    mergedMemTable =
                      foldl (\<lambda>m kv. MemTable_Set (fst kv) (snd kv) m) NewMemTable
                        (range_map (order env 2) mergedEntries);
                    compactedSSTablePath =
                      filepath_Join (dataDir l) (compacted_name (now env 0))
                in case NewSSTable compactedSSTablePath (order env 3) (now env 1) mergedMemTable fs of
                     (Inl e, fs1) \<Rightarrow> (Inl (Errorf ''failed to create compacted SSTable'' (Some e)), fs1)
                   | (Inr compactedSSTable, fs1) \<Rightarrow> (Inr compactedSSTable, fs1))))"

text \<open>
  \<open>triggerCompaction\<close> between \<open>Lock\<close> and the deferred \<open>Unlock\<close>. What it prints to the
  standard output is not part of the model.
\<close>

definition triggerCompaction_locked :: "Env \<Rightarrow> World \<Rightarrow> World" where
  "triggerCompaction_locked env w =
     (if length (ssTables (tree w)) < 2 then w
      else (let oldestSSTable = ssTables (tree w) ! 0;
                secondOldestSSTable = ssTables (tree w) ! 1
            in case compactSSTables env (tree w) oldestSSTable secondOldestSSTable (disk w) of
                 (Inl e, fs) \<Rightarrow> w\<lparr>disk := fs\<rparr>
               | (Inr compactedSSTable, fs) \<Rightarrow>
                   w\<lparr>tree := (tree w)\<lparr>ssTables := compactedSSTable # drop 2 (ssTables (tree w))\<rparr>,
                     disk := snd (os_Remove (FilePath secondOldestSSTable)
                                   (snd (os_Remove (FilePath oldestSSTable) fs)))\<rparr>))"

text \<open>
  The goroutine started by \<open>flushMemTable\<close>. It runs once the mutex is free; until then
  it waits (\<open>None\<close>).
\<close>

definition triggerCompaction :: "Env \<Rightarrow> World \<Rightarrow> World option" where
  "triggerCompaction env w =
     (if compactions w = 0 then None
      else case Lock (mutex (tree w)) of
        None \<Rightarrow> None
      | Some mu \<Rightarrow>
          (let w1 = triggerCompaction_locked env (w\<lparr>tree := (tree w)\<lparr>mutex := mu\<rparr>\<rparr>)
           in Some (w1\<lparr>tree := (tree w1)\<lparr>mutex := Unlock (mutex (tree w1))\<rparr>,
                      compactions := compactions w1 - 1\<rparr>)))"

text \<open>
  A restart: the process ends and a new one builds a fresh engine on the same data
  directory. The file system stays; the engine in memory and the goroutines are gone.
\<close>

definition restart :: "World \<Rightarrow> World" where
  "restart w = \<lparr>tree = NewLSMTree (dataDir (tree w)), disk = disk w, compactions = 0\<rparr>"

definition fresh :: "path \<Rightarrow> FileSystem \<Rightarrow> World" where
  "fresh dir fs = \<lparr>tree = NewLSMTree dir, disk = fs, compactions = 0\<rparr>"

section \<open>Concrete inputs\<close>

text \<open>
  A data directory, a file system that holds nothing but this directory, and a runtime
  whose clock reads 0 and whose loops over a map visit the entries in the order of their
  insertion. \<open>fresh dir0 fs0\<close> is the engine right after \<open>NewLSMTree\<close> on a new data
  directory.
\<close>

definition dir0 :: path where
  "dir0 = [''home'', ''.Lockr'']"

definition fs0 :: FileSystem where
  "fs0 = \<lparr>files = Map.empty, dirs = {dir0}\<rparr>"

definition env0 :: Env where
  "env0 = \<lparr>now = (\<lambda>i. 0), order = (\<lambda>i. [])\<rparr>"

text \<open>A value with a line break in it, and one whose second line holds a comma.\<close>

definition two_lines :: string where
  "two_lines = ''a'' @ [CHR 0x0A] @ ''b''"

definition two_entries :: string where
  "two_entries = ''a'' @ [CHR 0x0A] @ ''b,c''"

section \<open>Sequences of cache operations\<close>

text \<open>
  A call of \<open>Cache.Set\<close> comes with what the runtime chooses during it: the order of the
  loop of \<open>evict\<close> and the reading of the clock.
\<close>

datatype cache_op = CacheSet "nat list" int string string | CacheGet string

fun apply_cache_op :: "Cache \<Rightarrow> cache_op \<Rightarrow> Cache" where
  "apply_cache_op c (CacheSet ord t key val) = cache_Set ord t key val c"
| "apply_cache_op c (CacheGet key) = snd (cache_Get key c)"

definition run_cache :: "int \<Rightarrow> cache_op list \<Rightarrow> Cache" where
  "run_cache n ops = foldl apply_cache_op (NewCache n) ops"

fun is_CacheGet :: "cache_op \<Rightarrow> bool" where
  "is_CacheGet (CacheGet key) = True"
| "is_CacheGet (CacheSet ord t key val) = False"

definition count_Gets :: "cache_op list \<Rightarrow> nat" where
  "count_Gets ops = length (filter is_CacheGet ops)"

text \<open>
  The cache of capacity 1 after \<open>Set("a", "x")\<close> and \<open>2^63 - 2\<close> calls of \<open>Get("a")\<close>.
\<close>

definition saturating_ops :: "cache_op list" where
  "saturating_ops = CacheSet [] 0 ''a'' ''x'' # replicate (2 ^ 63 - 2) (CacheGet ''a'')"

text \<open>
  What holds of every cache reached by \<open>g\<close> calls of \<open>Get\<close> and any number of calls
  of \<open>Set\<close>: the two maps have the same keys, and every access count lies between 1 and
  \<open>1 + g\<close>.
\<close>

definition cache_inv :: "nat \<Rightarrow> Cache \<Rightarrow> bool" where
  "cache_inv g c =
     (map fst (entries c) = map fst (accessCount c) \<and> distinct (map fst (entries c)) \<and>
      (\<forall>x \<in> set (accessCount c). 1 \<le> unat (snd x) \<and> unat (snd x) \<le> 1 + g))"

text \<open>
  An engine with two segments that both hold the key \<^verbatim>\<open>k\<close>: the value \<^verbatim>\<open>v\<close> is set
  and the buffer flushed at time 0, then \<open>newer\<close> is set and the buffer flushed at time 1.
  The flush is that of the source, called before the buffer has reached the threshold
  of \<open>2^20\<close> entries.
\<close>

definition env1 :: Env where
  "env1 = \<lparr>now = (\<lambda>i. 1), order = (\<lambda>i. [])\<rparr>"

definition do_Set :: "Env \<Rightarrow> string \<Rightarrow> string \<Rightarrow> World \<Rightarrow> World" where
  "do_Set env key val w = (case LSMTree_Set env key val w of Some (r, w') \<Rightarrow> w' | None \<Rightarrow> w)"

definition do_flush :: "Env \<Rightarrow> World \<Rightarrow> World" where
  "do_flush env w = snd (flushMemTable env w)"

definition two_segments :: "string \<Rightarrow> World" where
  "two_segments newer =
     do_flush env1 (do_Set env1 ''k'' newer (do_flush env0 (do_Set env0 ''k'' ''v'' (fresh dir0 fs0))))"

text \<open>The same engine after the key has left the cache.\<close>

definition two_segments_uncached :: "string \<Rightarrow> World" where
  "two_segments_uncached newer =
     (two_segments newer)\<lparr>tree := (tree (two_segments newer))\<lparr>cache := NewCache 1000\<rparr>\<rparr>"

section \<open>Entries a segment can hold\<close>

text \<open>
  \<open>line_ok key val\<close>: the entry can be read back from its line \<^verbatim>\<open>key,value\n\<close>. The
  key holds no comma and no line break, the value no line break and no carriage return
  at its end, and the line fits the scanner's buffer.
\<close>

definition line_ok :: "string \<Rightarrow> string \<Rightarrow> bool" where
  "line_ok key val =
     (CHR '','' \<notin> set key \<and> CHR 0x0A \<notin> set key \<and> CHR 0x0A \<notin> set val \<and>
      (val = [] \<or> last val \<noteq> CHR 0x0D) \<and>
      length key + 1 + length val < MaxScanTokenSize)"

text \<open>
  \<open>sst_holds fs s key val\<close>: the segment \<open>s\<close> holds the entry. Its filter has the key,
  its index maps the key to an offset, and its file has the line of the entry at that
  offset.
\<close>

definition sst_holds :: "FileSystem \<Rightarrow> SSTable \<Rightarrow> string \<Rightarrow> string \<Rightarrow> bool" where
  "sst_holds fs s key val =
     (MightContain (bloomFilter s) key \<and>
      (case map_of (index s) key of
         None \<Rightarrow> False
       | Some offset \<Rightarrow>
           (case files fs (filePath s) of
              None \<Rightarrow> False
            | Some content \<Rightarrow>
                take (length (entry_line key val)) (drop offset content) = entry_line key val)))"

section \<open>Sequences of engine operations\<close>

text \<open>
  One step of a run is a call of \<open>Set\<close>, or the scheduler letting a compaction
  goroutine run if one is pending. A run stops (\<open>None\<close>) when a \<open>Set\<close> reports an error
  or does not return.
\<close>

datatype step = DoSet Env string string | DoCompaction Env

fun run :: "World \<Rightarrow> step list \<Rightarrow> World option" where
  "run w [] = Some w"
| "run w (DoSet env key val # steps) =
     (case LSMTree_Set env key val w of
        Some (None, w') \<Rightarrow> run w' steps
      | Some (Some e, w') \<Rightarrow> None
      | None \<Rightarrow> None)"
| "run w (DoCompaction env # steps) =
     (case triggerCompaction env w of
        Some w' \<Rightarrow> run w' steps
      | None \<Rightarrow> run w steps)"

text \<open>
  The value of the last \<open>Set\<close> of a key in a run, \<open>l\<close> if the run has none; the number
  of calls of \<open>Set\<close>; and the readings of the clock that name the segment files of the
  flushes.
\<close>

fun last_write :: "string \<Rightarrow> string option \<Rightarrow> step list \<Rightarrow> string option" where
  "last_write key l [] = l"
| "last_write key l (DoSet env k v # steps) = last_write key (if k = key then Some v else l) steps"
| "last_write key l (DoCompaction env # steps) = last_write key l steps"

fun count_Sets :: "step list \<Rightarrow> nat" where
  "count_Sets [] = 0"
| "count_Sets (DoSet env k v # steps) = Suc (count_Sets steps)"
| "count_Sets (DoCompaction env # steps) = count_Sets steps"

fun flush_times :: "step list \<Rightarrow> int list" where
  "flush_times [] = []"
| "flush_times (DoSet env k v # steps) = now env 1 # flush_times steps"
| "flush_times (DoCompaction env # steps) = flush_times steps"

text \<open>
  What holds of the engine on the data directory \<open>dir\<close> after \<open>n\<close> calls of \<open>Set\<close>
  whose flushes used the clock readings \<open>used\<close>: the mutex is free, the data directory
  exists and has no subdirectory, the buffer has distinct keys and at most \<open>n\<close> of them,
  a segment exists only if the threshold was reached, and every segment file is named
  after one of the clock readings.
\<close>

definition engine_frame :: "path \<Rightarrow> int set \<Rightarrow> World \<Rightarrow> nat \<Rightarrow> bool" where
  "engine_frame dir used w n =
     (mutex (tree w) = Unlocked \<and> dataDir (tree w) = dir \<and> wal (tree w) = NewWAL dir \<and>
      dir \<in> dirs (disk w) \<and> (\<forall>name. filepath_Join dir name \<notin> dirs (disk w)) \<and>
      distinct (map fst (data (memTable (tree w)))) \<and>
      length (data (memTable (tree w))) \<le> n \<and>
      (ssTables (tree w) \<noteq> [] \<longrightarrow> memTableSizeThreshold \<le> n) \<and>
      (\<forall>s \<in> set (ssTables (tree w)). \<exists>t \<in> used. filePath s = filepath_Join dir (sstable_name t)))"

text \<open>
  Where the last value \<open>l\<close> written for a key is: the cache and the buffer hold no other
  value for the key, and when the buffer does not hold the key, the newest segment with
  an entry for the key holds the value.
\<close>

definition key_inv :: "string \<Rightarrow> World \<Rightarrow> string option \<Rightarrow> bool" where
  "key_inv key w l =
     ((\<forall>e. map_of (entries (cache (tree w))) key = Some e \<longrightarrow> l = Some (value_e e)) \<and>
      (\<forall>v. map_of (data (memTable (tree w))) key = Some v \<longrightarrow> l = Some v) \<and>
      (\<forall>v. l = Some v \<longrightarrow> map_of (data (memTable (tree w))) key = None \<longrightarrow>
         (\<exists>older s newer. ssTables (tree w) = older @ [s] @ newer \<and>
            (\<forall>s' \<in> set newer. map_of (index s') key = None) \<and> sst_holds (disk w) s key v)))"

text \<open>
  A run that fills the buffer up to the flush threshold: \<open>Set\<close> of the key \<^verbatim>\<open>k\<close>, then
  \<open>Set\<close> of \<open>2^20 - 1\<close> further keys \<^verbatim>\<open>f1\<close>, \<^verbatim>\<open>f2\<close>, ... The clock reads \<open>i\<close> during
  the \<open>i\<close>-th call, and every loop over a map visits the entries in the order of their
  insertion. The last call flushes the buffer into the first segment.
\<close>

definition env_at :: "int \<Rightarrow> Env" where
  "env_at t = \<lparr>now = (\<lambda>i. t), order = (\<lambda>i. [])\<rparr>"

definition filler :: "nat \<Rightarrow> string" where
  "filler i = CHR ''f'' # digits i"

definition fill_steps :: "nat \<Rightarrow> nat \<Rightarrow> step list" where
  "fill_steps a b = map (\<lambda>i. DoSet (env_at (int i)) (filler i) ''x'') [a..<b]"

definition flush_trace :: "string \<Rightarrow> step list" where
  "flush_trace val = DoSet (env_at 0) ''k'' val # fill_steps 1 memTableSizeThreshold"

text \<open>
  What holds on this run after the \<open>Set\<close> of \<^verbatim>\<open>k\<close> and of the keys \<^verbatim>\<open>f1\<close> to
  \<^verbatim>\<open>f(j-1)\<close>: up to the threshold the buffer holds exactly these keys and there is no
  segment, then the buffer is empty; the cache holds these keys with the access count 1
  while they are at most 1000, and has evicted \<^verbatim>\<open>k\<close>, the first of them, afterwards.
\<close>

definition fill_keys :: "nat \<Rightarrow> string list" where
  "fill_keys j = ''k'' # map filler [1..<j]"

definition fill_inv :: "nat \<Rightarrow> World \<Rightarrow> bool" where
  "fill_inv j w =
     (mutex (tree w) = Unlocked \<and> wal (tree w) = NewWAL dir0 \<and> dataDir (tree w) = dir0 \<and>
      dirs (disk w) = {dir0} \<and> maxSize (cache (tree w)) = 1000 \<and>
      (if j < memTableSizeThreshold
       then map fst (data (memTable (tree w))) = fill_keys j \<and> ssTables (tree w) = []
       else data (memTable (tree w)) = []) \<and>
      (if j \<le> 1000
       then accessCount (cache (tree w)) = map (\<lambda>k. (k, 1)) (fill_keys j) \<and>
            map fst (entries (cache (tree w))) = fill_keys j
       else ''k'' \<notin> fst ` set (entries (cache (tree w)))))"

section \<open>Restart and recovery\<close>

text \<open>
  The calls of \<open>Set\<close> of a run, in order, and the bytes that these calls append to the
  log.
\<close>

fun writes :: "step list \<Rightarrow> (string \<times> string) list" where
  "writes [] = []"
| "writes (DoSet env k v # steps) = (k, v) # writes steps"
| "writes (DoCompaction env # steps) = writes steps"





section \<open>Properties of the runtime model\<close>

subsection \<open>The membership filter\<close>

lemma hash_cong: "size_bf b = size_bf bf \<Longrightarrow> hash b key i = hash bf key i"
  by (simp add: hash_def)

lemma hash_in_range: "bf_wf bf \<Longrightarrow> hash bf key i < length (bitArray bf)"
proof -
  assume wf: "bf_wf bf"
  have u: "unat (word_of_nat (size_bf bf) :: 64 word) = size_bf bf"
    using wf by (simp add: bf_wf_def unat_of_nat)
  show ?thesis using wf by (simp add: hash_def unat_mod u bf_wf_def)
qed

lemma upd_True_nth: "j < length xs \<Longrightarrow> (xs[h := True]) ! j = (xs ! j \<or> h = j)"
  by (cases "h < length xs") (auto simp: nth_list_update)

text \<open>The loop of \<open>Add\<close>, for any list of seeds.\<close>

lemma Add_fold:
  "size_bf (foldl (\<lambda>b i. b\<lparr>bitArray := (bitArray b)[hash b key i := True]\<rparr>) bf is) = size_bf bf
   \<and> hashFuncs (foldl (\<lambda>b i. b\<lparr>bitArray := (bitArray b)[hash b key i := True]\<rparr>) bf is) = hashFuncs bf
   \<and> length (bitArray (foldl (\<lambda>b i. b\<lparr>bitArray := (bitArray b)[hash b key i := True]\<rparr>) bf is)) = length (bitArray bf)
   \<and> (\<forall>j < length (bitArray bf). bitArray (foldl (\<lambda>b i. b\<lparr>bitArray := (bitArray b)[hash b key i := True]\<rparr>) bf is) ! j
         = (bitArray bf ! j \<or> (\<exists>i \<in> set is. hash bf key i = j)))"
proof (induction "is" arbitrary: bf)
  case Nil
  then show ?case by simp
next
  case (Cons i "is")
  let ?b = "bf\<lparr>bitArray := (bitArray bf)[hash bf key i := True]\<rparr>"
  have h: "hash ?b key i' = hash bf key i'" for i' by (simp add: hash_def)
  show ?case using Cons.IH[of ?b] by (auto simp: h upd_True_nth)
qed

lemma Add_size [simp]: "size_bf (Add bf key) = size_bf bf"
  and Add_hashFuncs [simp]: "hashFuncs (Add bf key) = hashFuncs bf"
  and Add_length [simp]: "length (bitArray (Add bf key)) = length (bitArray bf)"
  using Add_fold[of key bf "[0..<hashFuncs bf]"] by (simp_all add: Add_def)

lemma Add_nth:
  "j < length (bitArray bf) \<Longrightarrow>
   bitArray (Add bf key) ! j = (bitArray bf ! j \<or> (\<exists>i < hashFuncs bf. hash bf key i = j))"
  using Add_fold[of key bf "[0..<hashFuncs bf]"] by (auto simp add: Add_def)

lemma Add_wf [simp]: "bf_wf (Add bf key) = bf_wf bf"
  by (simp add: bf_wf_def)

lemma NewBloomFilter_wf [simp]: "bf_wf NewBloomFilter"
  by (simp add: bf_wf_def NewBloomFilter_def)

lemma MightContain_Add_same: "bf_wf bf \<Longrightarrow> MightContain (Add bf key) key"
  by (auto simp: MightContain_def list_all_iff Add_nth hash_in_range hash_cong[of "Add bf key" bf])

lemma MightContain_Add_mono: "bf_wf bf \<Longrightarrow> MightContain bf key \<Longrightarrow> MightContain (Add bf key') key"
  by (auto simp: MightContain_def list_all_iff Add_nth hash_in_range hash_cong[of "Add bf key'" bf])

lemma foldl_Add_wf [simp]: "bf_wf (foldl Add bf ks) = bf_wf bf"
  by (induction ks arbitrary: bf) simp_all

lemma foldl_Add_size [simp]: "size_bf (foldl Add bf ks) = size_bf bf"
  by (induction ks arbitrary: bf) simp_all

lemma foldl_Add_hashFuncs [simp]: "hashFuncs (foldl Add bf ks) = hashFuncs bf"
  by (induction ks arbitrary: bf) simp_all

lemma MightContain_foldl_Add:
  "bf_wf bf \<Longrightarrow> MightContain bf key \<Longrightarrow> MightContain (foldl Add bf ks) key"
  by (induction ks arbitrary: bf) (simp_all add: MightContain_Add_mono)

text \<open>
  \<^bold>\<open>Claim C7\<close> (filter soundness). A filter starts as \<open>NewBloomFilter\<close>, with
  \<open>2^21\<close> bits and 7 hash functions, and only \<open>Add\<close> changes it. Whatever keys
  are added before and after a key, \<open>MightContain\<close> answers true for that key: the
  filter has no false negatives. (That false positives may occur is a remark of the
  claim, not a property to prove.)
\<close>

theorem filter_soundness:
  "MightContain (foldl Add (Add (foldl Add NewBloomFilter before) key) after) key
   \<and> size_bf (foldl Add (Add (foldl Add NewBloomFilter before) key) after) = 2 ^ 21
   \<and> hashFuncs (foldl Add (Add (foldl Add NewBloomFilter before) key) after) = 7"
proof -
  have "size_bf NewBloomFilter = 2 ^ 21" "hashFuncs NewBloomFilter = 7"
    by (simp_all add: NewBloomFilter_def)
  then show ?thesis
    by (simp add: MightContain_foldl_Add MightContain_Add_same)
qed

section \<open>The engine on concrete inputs\<close>

text \<open>The definitions to unfold when an operation is evaluated on a concrete input.\<close>

lemmas runtime_defs =
  Let_def filepath_Join_def os_Create_def os_Open_def os_OpenFile_append_def WriteString_def
  os_Stat_def os_Truncate0_def os_Remove_def itoa_def digit_char_def sstable_name_def
  compacted_name_def SplitN2_def dropCR_def
  Scan_def MaxScanTokenSize_def entry_line_def

lemmas engine_defs =
  NewLSMTree_def fresh_def restart_def NewWAL_def NewMemTable_def NewCache_def
  MemTable_Set_def MemTable_Get_def MemTable_Size_def Entries_def memTableSizeThreshold_def
  cache_Set_def cache_Get_def WAL_Log_def WAL_Recover_def WAL_Clear_def recover_step_def
  NewSSTable_def sstable_step_def SSTable_Get_def SSTable_List_def list_step_def FilePath_def
  flushMemTable_def Set_locked_def LSMTree_Set_def Get_locked_def LSMTree_Get_def
  Recover_locked_def LSMTree_Recover_def List_locked_def LSMTree_List_def
  list_memTable_step_def list_ssTable_step_def

lemmas input_defs = dir0_def fs0_def env0_def two_lines_def two_entries_def

lemmas input_defs2 =
  input_defs env1_def do_Set_def do_flush_def two_segments_def two_segments_uncached_def

section \<open>Delete\<close>

text \<open>
  \<^bold>\<open>Claim C6\<close> (error semantics and atomicity of \<open>Delete\<close>). The claim says that
  \<open>Delete\<close> returns the error \<^verbatim>\<open>key not found\<close> when the effective value of the
  key is empty and otherwise writes a tombstone. In the code \<open>Delete\<close> returns in no
  state at all: it takes the write lock and then calls \<open>Get\<close>, whose \<open>RLock\<close> waits for
  that very lock.
\<close>

theorem Delete_never_returns: "LSMTree_Delete env env' key w = None"
  by (cases "mutex (tree w)") (simp_all add: LSMTree_Delete_def LSMTree_Get_def)

section \<open>List\<close>

lemma RUnlock_RLock: "RLock m = Some m' \<Longrightarrow> RUnlock m' = m"
  by (cases m) auto

text \<open>
  \<^bold>\<open>Claim C10\<close> (\<open>List\<close> is read-only). Whenever \<open>List\<close> returns, with a result
  or an error, the engine (cache, buffer, registry, mutex), the file system (log and
  segment files) and the pending goroutines are what they were before the call.
\<close>

theorem List_read_only: "LSMTree_List env w = Some (r, w') \<Longrightarrow> w' = w"
  by (auto simp: LSMTree_List_def List_locked_def RUnlock_RLock split: option.splits)

theorem List_read_only_witness:
  "\<exists>w r. LSMTree_Set env0 ''a'' ''1'' (fresh dir0 fs0) = Some (None, w)
         \<and> LSMTree_List env0 w = Some (Inr r, w) \<and> r = [(''a'', ''1'')]
         \<and> entries (cache (tree w)) \<noteq> []"
proof -
  obtain w where s: "LSMTree_Set env0 ''a'' ''1'' (fresh dir0 fs0) = Some (None, w)"
    and c: "entries (cache (tree w)) \<noteq> []"
    and m: "mutex (tree w) = Unlocked" "ssTables (tree w) = []"
           "memTable (tree w) = \<lparr>data = [(''a'', ''1'')]\<rparr>"
    by (simp add: engine_defs runtime_defs input_defs)
  obtain w' where l: "LSMTree_List env0 w = Some (Inr [(''a'', ''1'')], w')"
    using m by (simp add: engine_defs runtime_defs input_defs)
  from List_read_only [OF l] have "w' = w" .
  with s c l show ?thesis by blast
qed

section \<open>Values with a line break\<close>

text \<open>
  \<^bold>\<open>Claim C8\<close> (values containing newlines are silently corrupted). \<open>Set\<close> of the
  key \<^verbatim>\<open>k\<close> to the value \<^verbatim>\<open>a\nb\<close> on a fresh engine reports success. After a flush of
  the buffer, \<open>SSTable.Get\<close> returns \<^verbatim>\<open>a\<close>, the text before the line break, and
  \<open>WAL.Recover\<close> yields \<^verbatim>\<open>a\<close> for the key: the second line \<^verbatim>\<open>b\<close> holds no comma and is
  dropped. With the value \<^verbatim>\<open>a\nb,c\<close> the second line is recovered as an entry of its
  own, the key \<^verbatim>\<open>b\<close> with the value \<^verbatim>\<open>c\<close>, which nobody wrote.
\<close>

theorem newline_value_corrupted:
  "CHR 0x0A \<in> set two_lines \<and> CHR 0x0A \<in> set two_entries \<and>
   (case LSMTree_Set env0 ''k'' two_lines (fresh dir0 fs0) of
      Some (None, w1) \<Rightarrow>
        WAL_Recover (wal (tree w1)) (disk w1) = Inr [(''k'', ''a'')] \<and>
        (case flushMemTable env0 w1 of
           (None, w2) \<Rightarrow> SSTable_Get ''k'' (last (ssTables (tree w2))) (disk w2) = Inr ''a''
         | (Some e, w2) \<Rightarrow> False)
    | _ \<Rightarrow> False) \<and>
   (case LSMTree_Set env0 ''k'' two_entries (fresh dir0 fs0) of
      Some (None, w1) \<Rightarrow>
        WAL_Recover (wal (tree w1)) (disk w1) = Inr [(''k'', ''a''), (''b'', ''c'')] \<and>
        (case flushMemTable env0 w1 of
           (None, w2) \<Rightarrow> SSTable_Get ''k'' (last (ssTables (tree w2))) (disk w2) = Inr ''a''
         | (Some e, w2) \<Rightarrow> False)
    | _ \<Rightarrow> False)"
  by (simp add: engine_defs runtime_defs input_defs MightContain_Add_same)

section \<open>The recency cache\<close>

lemma set_range_map [simp]: "set (range_map cs xs) = set xs"
proof (induction cs arbitrary: xs)
  case Nil
  then show ?case by simp
next
  case (Cons c cs)
  show ?case
  proof (cases "xs = []")
    case True
    then show ?thesis by simp
  next
    case False
    let ?i = "c mod length xs"
    have i: "?i < length xs" using False by simp
    have "xs = take ?i xs @ xs ! ?i # drop (Suc ?i) xs"
      using i by (rule id_take_nth_drop)
    then have "set xs = insert (xs ! ?i) (set (take ?i xs) \<union> set (drop (Suc ?i) xs))"
      by (metis list.simps(15) set_append Un_insert_right)
    then show ?thesis using False Cons.IH by simp
  qed
qed

lemma evict_fold:
  "(foldl evict_step (la, mc) xs = (la, mc) \<and> (\<forall>x \<in> set xs. \<not> snd x <s mc))
   \<or> (foldl evict_step (la, mc) xs \<in> set xs \<and> snd (foldl evict_step (la, mc) xs) <s mc
       \<and> (\<forall>x \<in> set xs. snd (foldl evict_step (la, mc) xs) \<le>s snd x))"
proof (induction xs arbitrary: la mc)
  case Nil
  then show ?case by simp
next
  case (Cons x xs)
  obtain k c where x: "x = (k, c)" by (cases x)
  show ?case
  proof (cases "c <s mc")
    case True
    then have s: "evict_step (la, mc) (k, c) = (k, c)" by (simp add: evict_step_def)
    from Cons.IH[of k c] show ?thesis
      using True by (auto simp: x s word_sless_alt word_sle_eq)
  next
    case False
    then have s: "evict_step (la, mc) (k, c) = (la, mc)" by (simp add: evict_step_def)
    from Cons.IH[of la mc] show ?thesis
      using False by (auto simp: x s word_sless_alt word_sle_eq)
  qed
qed


lemma sint_small: "uint (w :: 64 word) < 2 ^ 63 \<Longrightarrow> sint w = uint w"
proof -
  assume a: "uint w < 2 ^ 63"
  have "- (2 ^ 63) \<le> (0 :: int)" by simp
  also have "0 \<le> uint w" by simp
  finally have "signed_take_bit 63 (uint w) = uint w"
    using a by (intro signed_take_bit_int_eq_self)
  then show ?thesis by (simp add: sint_uint)
qed

lemma uint_MaxInt: "uint MaxInt = 2 ^ 63 - 1"
  by (simp add: MaxInt_def)

lemma sint_MaxInt: "sint MaxInt = 2 ^ 63 - 1"
  using sint_small[of MaxInt] by (simp add: uint_MaxInt)

lemma cache_inv_New: "cache_inv g (NewCache n)"
  by (simp add: cache_inv_def NewCache_def)

lemma cache_inv_mono: "cache_inv g c \<Longrightarrow> g \<le> g' \<Longrightarrow> cache_inv g' c"
  by (fastforce simp: cache_inv_def)

lemma count_less_MaxInt:
  assumes "cache_inv g c" "g < 2 ^ 63 - 2" "x \<in> set (accessCount c)"
  shows "snd x <s MaxInt"
proof -
  have "unat (snd x) \<le> 1 + g" using assms by (auto simp: cache_inv_def)
  then have "unat (snd x) < 2 ^ 63 - 1" using assms(2) by simp
  then have "int (unat (snd x)) < 2 ^ 63 - 1" by (simp add: nat_less_iff del: of_nat_unat)
  then have u: "uint (snd x) < 2 ^ 63 - 1" by simp
  then have "sint (snd x) = uint (snd x)" by (intro sint_small) simp
  then show ?thesis using u by (simp add: word_sless_alt sint_MaxInt)
qed

lemma length_delete_present:
  "distinct (map fst al) \<Longrightarrow> k \<in> fst ` set al \<Longrightarrow> Suc (length (AList.delete k al)) = length al"
proof (induction al)
  case Nil
  then show ?case by simp
next
  case (Cons p al)
  show ?case
  proof (cases "fst p = k")
    case True
    then have "k \<notin> fst ` set al" using Cons.prems(1) by auto
    then show ?thesis using True by (cases p) (simp add: AList.delete_id)
  next
    case False
    then show ?thesis using Cons by (cases p) auto
  qed
qed

lemma evict_victim:
  assumes inv: "cache_inv g c" and g: "g < 2 ^ 63 - 2" and ne: "entries c \<noteq> []"
  shows "\<exists>victim. victim \<in> set (accessCount c)
           \<and> (\<forall>x \<in> set (accessCount c). snd victim \<le>s snd x)
           \<and> evict ord c = c\<lparr>entries := AList.delete (fst victim) (entries c),
                                accessCount := AList.delete (fst victim) (accessCount c)\<rparr>"
proof -
  let ?xs = "range_map ord (accessCount c)"
  let ?P = "foldl evict_step ('''', MaxInt) ?xs"
  have "accessCount c \<noteq> []" using inv ne by (auto simp: cache_inv_def)
  then obtain x where x: "x \<in> set (accessCount c)" by (cases "accessCount c") auto
  then have "snd x <s MaxInt" using count_less_MaxInt[OF inv g] by blast
  then have "\<not> (\<forall>x \<in> set ?xs. \<not> snd x <s MaxInt)" using x by auto
  with evict_fold[of "''''" MaxInt ?xs]
  have "?P \<in> set ?xs \<and> (\<forall>x \<in> set ?xs. snd ?P \<le>s snd x)" by blast
  then show ?thesis
    by (intro exI[of _ ?P]) (simp add: evict_def Let_def)
qed

lemma cache_inv_delete:
  assumes "cache_inv g c"
  shows "cache_inv g (c\<lparr>entries := AList.delete k (entries c),
                        accessCount := AList.delete k (accessCount c)\<rparr>)"
proof -
  have "set (AList.delete k (accessCount c)) \<subseteq> set (accessCount c)"
    by (auto simp: AList.delete_eq)
  then show ?thesis using assms
    by (auto simp: cache_inv_def AList.delete_keys distinct_removeAll)
qed

lemma length_update_le: "length (AList.update k v al) \<le> Suc (length al)"
  by (induction al) auto

lemma set_update_subset: "set (AList.update k v al) \<subseteq> insert (k, v) (set al)"
  by (induction al) auto

lemma cache_inv_update:
  assumes "cache_inv g c"
  shows "cache_inv g (c\<lparr>entries := AList.update k e (entries c),
                        accessCount := AList.update k 1 (accessCount c)\<rparr>)"
  using assms set_update_subset[of k "1 :: 64 word" "accessCount c"]
  by (auto simp: cache_inv_def AList.update_keys AList.distinct_update)


lemma cache_Set_inv:
  assumes inv: "cache_inv g c" and g: "g < 2 ^ 63 - 2" and n: "1 \<le> maxSize c"
    and le: "int (length (entries c)) \<le> maxSize c"
  shows "cache_inv g (cache_Set ord t key val c)
         \<and> maxSize (cache_Set ord t key val c) = maxSize c
         \<and> int (length (entries (cache_Set ord t key val c))) \<le> maxSize c"
proof (cases "int (length (entries c)) \<ge> maxSize c")
  case True
  then have ne: "entries c \<noteq> []" using n by auto
  from evict_victim[OF inv g ne, of ord] obtain victim where
    v: "victim \<in> set (accessCount c)"
    and e: "evict ord c = c\<lparr>entries := AList.delete (fst victim) (entries c),
                              accessCount := AList.delete (fst victim) (accessCount c)\<rparr>"
    by blast
  have "fst victim \<in> fst ` set (entries c)"
    using v inv by (metis cache_inv_def image_eqI list.set_map)
  then have len: "Suc (length (AList.delete (fst victim) (entries c))) = length (entries c)"
    using inv by (intro length_delete_present) (auto simp: cache_inv_def)
  have i1: "cache_inv g (evict ord c)" unfolding e by (rule cache_inv_delete[OF inv])
  have "length (AList.update key \<lparr>value_e = val, timestamp = t\<rparr> (AList.delete (fst victim) (entries c)))
        \<le> Suc (length (AList.delete (fst victim) (entries c)))"
    by (rule length_update_le)
  then show ?thesis
    using True le len cache_inv_update[OF i1, of key "\<lparr>value_e = val, timestamp = t\<rparr>"]
    by (simp add: cache_Set_def e)
next
  case False
  have "length (AList.update key \<lparr>value_e = val, timestamp = t\<rparr> (entries c)) \<le> Suc (length (entries c))"
    by (rule length_update_le)
  then show ?thesis
    using False cache_inv_update[OF inv, of key "\<lparr>value_e = val, timestamp = t\<rparr>"]
    by (simp add: cache_Set_def)
qed

lemma cache_Get_inv:
  assumes inv: "cache_inv g c" and g: "Suc g < 2 ^ 63 - 2"
  shows "cache_inv (Suc g) (snd (cache_Get key c))
         \<and> maxSize (snd (cache_Get key c)) = maxSize c
         \<and> entries (snd (cache_Get key c)) = entries c"
proof (cases "map_of (entries c) key")
  case None
  then show ?thesis using cache_inv_mono[OF inv, of "Suc g"] by (simp add: cache_Get_def)
next
  case (Some e)
  then have "key \<in> fst ` set (entries c)" by (force dest: map_of_SomeD)
  then have k: "key \<in> fst ` set (accessCount c)"
    using inv by (metis cache_inv_def list.set_map)
  then obtain m where m: "map_of (accessCount c) key = Some m"
    by (metis map_of_eq_None_iff not_None_eq)
  then have mem: "(key, m) \<in> set (accessCount c)" by (rule map_of_SomeD)
  then have b: "1 \<le> unat m" "unat m \<le> 1 + g" using inv by (auto simp: cache_inv_def)
  have "unat m + unat (1 :: 64 word) < 2 ^ 64" using b g by simp
  then have u: "unat (m + 1) = unat m + 1" using unat_add_lem[of m 1] by simp
  have sub: "set (AList.update key (m + 1) (accessCount c)) \<subseteq> insert (key, m + 1) (set (accessCount c))"
    by (rule set_update_subset)
  have keys: "map fst (AList.update key (m + 1) (accessCount c)) = map fst (accessCount c)"
    using k by (simp add: AList.update_keys)
  have "cache_inv (Suc g) (c\<lparr>accessCount := AList.update key (m + 1) (accessCount c)\<rparr>)"
    using inv sub u b keys by (fastforce simp: cache_inv_def)
  then show ?thesis using Some m by (simp add: cache_Get_def)
qed

lemma run_cache_inv:
  assumes "1 \<le> n"
  shows "cache_inv g c \<Longrightarrow> maxSize c = n \<Longrightarrow> int (length (entries c)) \<le> n \<Longrightarrow>
         g + count_Gets ops < 2 ^ 63 - 2 \<Longrightarrow>
         cache_inv (g + count_Gets ops) (foldl apply_cache_op c ops)
         \<and> maxSize (foldl apply_cache_op c ops) = n
         \<and> int (length (entries (foldl apply_cache_op c ops))) \<le> n"
proof (induction ops arbitrary: c g)
  case Nil
  then show ?case by (simp add: count_Gets_def)
next
  case (Cons x ops)
  show ?case
  proof (cases x)
    case (CacheSet ord t key val)
    have g: "g < 2 ^ 63 - 2" using Cons.prems(4) by simp
    have cg: "count_Gets (CacheSet ord t key val # ops) = count_Gets ops" by (simp add: count_Gets_def)
    from cache_Set_inv[OF Cons.prems(1) g, of ord t key val] Cons.prems(2,3) assms
    have "cache_inv g (cache_Set ord t key val c)"
      "maxSize (cache_Set ord t key val c) = n"
      "int (length (entries (cache_Set ord t key val c))) \<le> n" by auto
    from Cons.IH[OF this] Cons.prems(4) show ?thesis by (simp add: cg CacheSet)
  next
    case (CacheGet key)
    have cg: "count_Gets (CacheGet key # ops) = Suc (count_Gets ops)" by (simp add: count_Gets_def)
    have g: "Suc g < 2 ^ 63 - 2" using Cons.prems(4) cg by (simp add: CacheGet)
    from cache_Get_inv[OF Cons.prems(1) g, of key] Cons.prems(2,3)
    have "cache_inv (Suc g) (snd (cache_Get key c))"
      "maxSize (snd (cache_Get key c)) = n"
      "int (length (entries (snd (cache_Get key c)))) \<le> n" by auto
    from Cons.IH[OF this] Cons.prems(4) show ?thesis by (simp add: cg CacheGet)
  qed
qed

text \<open>
  What the cache does as long as no access count has reached the largest \<^verbatim>\<open>int\<close>.
  Start from the empty cache of capacity \<open>n \<ge> 1\<close> and run any sequence of \<open>Set\<close> and
  \<open>Get\<close> with fewer than \<open>2^63 - 2\<close> calls of \<open>Get\<close>. Then the cache holds at most
  \<open>n\<close> entries; when it is at capacity, the next \<open>Set\<close> removes an entry whose access
  count is the smallest (as signed numbers) from both maps before it inserts the new
  entry; and the new entry has the access count 1.
\<close>

theorem cache_capacity_bounded:
  assumes "1 \<le> n" and "count_Gets ops < 2 ^ 63 - 2"
  shows "int (length (entries (run_cache n ops))) \<le> n
     \<and> (int (length (entries (run_cache n ops))) \<ge> n \<longrightarrow>
          (\<exists>victim \<in> set (accessCount (run_cache n ops)).
             (\<forall>x \<in> set (accessCount (run_cache n ops)). snd victim \<le>s snd x)
             \<and> entries (cache_Set ord t key val (run_cache n ops))
                 = AList.update key \<lparr>value_e = val, timestamp = t\<rparr>
                     (AList.delete (fst victim) (entries (run_cache n ops)))
             \<and> accessCount (cache_Set ord t key val (run_cache n ops))
                 = AList.update key 1 (AList.delete (fst victim) (accessCount (run_cache n ops)))))
     \<and> map_of (accessCount (cache_Set ord t key val (run_cache n ops))) key = Some 1"
proof -
  let ?c = "run_cache n ops"
  have r: "cache_inv (count_Gets ops) ?c" "maxSize ?c = n" "int (length (entries ?c)) \<le> n"
    using run_cache_inv[OF assms(1), where g = 0 and c = "NewCache n" and ops = ops] assms
    by (simp_all add: run_cache_def cache_inv_New) (simp_all add: NewCache_def)
  have one: "map_of (accessCount (cache_Set ord t key val ?c)) key = Some 1"
    by (simp add: cache_Set_def Let_def AList.update_conv')
  have ev: "\<exists>victim \<in> set (accessCount ?c).
             (\<forall>x \<in> set (accessCount ?c). snd victim \<le>s snd x)
             \<and> entries (cache_Set ord t key val ?c)
                 = AList.update key \<lparr>value_e = val, timestamp = t\<rparr> (AList.delete (fst victim) (entries ?c))
             \<and> accessCount (cache_Set ord t key val ?c)
                 = AList.update key 1 (AList.delete (fst victim) (accessCount ?c))"
    if full: "int (length (entries ?c)) \<ge> n"
  proof -
    have ne: "entries ?c \<noteq> []" using full assms(1) by auto
    from evict_victim[OF r(1) assms(2) ne, of ord] obtain victim where
      "victim \<in> set (accessCount ?c)" "\<forall>x \<in> set (accessCount ?c). snd victim \<le>s snd x"
      "evict ord ?c = ?c\<lparr>entries := AList.delete (fst victim) (entries ?c),
                          accessCount := AList.delete (fst victim) (accessCount ?c)\<rparr>"
      by blast
    then show ?thesis using full r(2) by (intro bexI[of _ victim]) (simp_all add: cache_Set_def)
  qed
  show ?thesis using r(3) one ev by blast
qed


lemma repeated_Get:
  "map_of (entries c) key = Some e \<Longrightarrow> map_of (accessCount c) key = Some m \<Longrightarrow>
   foldl apply_cache_op c (replicate j (CacheGet key))
     = c\<lparr>accessCount := AList.update key (m + of_nat j) (accessCount c)\<rparr>"
proof (induction j arbitrary: c m)
  case 0
  then show ?case by (simp add: AList.update_triv)
next
  case (Suc j)
  let ?c = "c\<lparr>accessCount := AList.update key (m + 1) (accessCount c)\<rparr>"
  have s: "snd (cache_Get key c) = ?c" using Suc.prems by (simp add: cache_Get_def)
  have "map_of (entries ?c) key = Some e" "map_of (accessCount ?c) key = Some (m + 1)"
    using Suc.prems by (simp_all add: AList.update_conv')
  from Suc.IH[OF this] show ?case by (simp add: s add.assoc)
qed

lemma saturated:
  "run_cache 1 saturating_ops
     = \<lparr>entries = [(''a'', \<lparr>value_e = ''x'', timestamp = 0\<rparr>)], maxSize = 1,
        accessCount = [(''a'', MaxInt)]\<rparr>"
proof -
  let ?c = "cache_Set [] 0 ''a'' ''x'' (NewCache 1)"
  have c: "?c = \<lparr>entries = [(''a'', \<lparr>value_e = ''x'', timestamp = 0\<rparr>)], maxSize = 1,
                  accessCount = [(''a'', 1)]\<rparr>"
    by (simp add: cache_Set_def NewCache_def)
  have "run_cache 1 saturating_ops = foldl apply_cache_op ?c (replicate (2 ^ 63 - 2) (CacheGet ''a''))"
    by (simp add: run_cache_def saturating_ops_def)
  also have "\<dots> = ?c\<lparr>accessCount := AList.update ''a'' (1 + of_nat (2 ^ 63 - 2)) (accessCount ?c)\<rparr>"
    by (rule repeated_Get[where e = "\<lparr>value_e = ''x'', timestamp = 0\<rparr>"]) (simp_all add: c)
  finally show ?thesis by (simp add: c MaxInt_def)
qed

text \<open>
  \<^bold>\<open>Claim C9\<close> (the capacity is a hard ceiling). The claim says that after every
  sequence of \<open>Set\<close> and \<open>Get\<close> the cache holds at most as many entries as its
  capacity, because \<open>Set\<close> at capacity evicts a key first. In the code \<open>evict\<close> starts
  its search from \<open>minCount = MaxInt\<close> and compares with a strict \<open><\<close>, so an access
  count that has reached the largest \<^verbatim>\<open>int\<close> is never below it: \<open>leastAccessed\<close> stays
  the empty string and nothing is removed. The cache of capacity 1 holds the key \<^verbatim>\<open>a\<close>
  with the access count \<open>MaxInt\<close> after \<open>Set("a", "x")\<close> and \<open>2^63 - 2\<close> calls of
  \<open>Get("a")\<close>; \<open>Set("b", "y")\<close> then leaves it with two entries.
\<close>

theorem saturated_cache_exceeds_capacity:
  "run_cache 1 saturating_ops
     = \<lparr>entries = [(''a'', \<lparr>value_e = ''x'', timestamp = 0\<rparr>)], maxSize = 1,
        accessCount = [(''a'', MaxInt)]\<rparr>
   \<and> run_cache 1 (saturating_ops @ [CacheSet [] 0 ''b'' ''y''])
     = \<lparr>entries = [(''a'', \<lparr>value_e = ''x'', timestamp = 0\<rparr>), (''b'', \<lparr>value_e = ''y'', timestamp = 0\<rparr>)],
        maxSize = 1, accessCount = [(''a'', MaxInt), (''b'', 1)]\<rparr>"
proof -
  have "run_cache 1 (saturating_ops @ [CacheSet [] 0 ''b'' ''y''])
          = cache_Set [] 0 ''b'' ''y'' (run_cache 1 saturating_ops)"
    by (simp add: run_cache_def)
  then show ?thesis
    by (simp add: saturated cache_Set_def evict_def evict_step_def)
qed

text \<open>An instance below the bound: a cache of capacity 2 at capacity evicts \<^verbatim>\<open>b\<close>.\<close>

theorem cache_capacity_bounded_witness:
  "(1 :: int) \<le> 2
   \<and> count_Gets [CacheSet [] 0 ''a'' ''x'', CacheGet ''a'', CacheSet [] 0 ''b'' ''y''] < 2 ^ 63 - 2
   \<and> int (length (entries (run_cache 2 [CacheSet [] 0 ''a'' ''x'', CacheGet ''a'', CacheSet [] 0 ''b'' ''y'']))) = 2
   \<and> map fst (entries (cache_Set [] 0 ''c'' ''z''
        (run_cache 2 [CacheSet [] 0 ''a'' ''x'', CacheGet ''a'', CacheSet [] 0 ''b'' ''y''])))
      = [''a'', ''c'']
   \<and> accessCount (cache_Set [] 0 ''c'' ''z''
        (run_cache 2 [CacheSet [] 0 ''a'' ''x'', CacheGet ''a'', CacheSet [] 0 ''b'' ''y'']))
      = [(''a'', 2), (''c'', 1)]"
proof -
  let ?ops = "[CacheSet [] 0 ''a'' ''x'', CacheGet ''a'', CacheSet [] 0 ''b'' ''y'']"
  have h1: "(1 :: int) \<le> 2" by simp
  have h2: "count_Gets ?ops < 2 ^ 63 - 2" by (simp add: count_Gets_def)
  have r: "run_cache 2 ?ops
     = \<lparr>entries = [(''a'', \<lparr>value_e = ''x'', timestamp = 0\<rparr>), (''b'', \<lparr>value_e = ''y'', timestamp = 0\<rparr>)],
        maxSize = 2, accessCount = [(''a'', 2), (''b'', 1)]\<rparr>"
    by (simp add: run_cache_def NewCache_def cache_Set_def cache_Get_def)
  from cache_capacity_bounded [OF h1 h2, of "[]" 0 "''c''" "''z''"]
  have "int (length (entries (run_cache 2 ?ops))) \<le> 2" by blast
  then show ?thesis using h2
    by (simp add: r cache_Set_def evict_def evict_step_def word_sless_alt sint_MaxInt)
qed

section \<open>Compaction\<close>

lemma NewSSTable_no_dir:
  "dir \<notin> dirs fs \<Longrightarrow> \<exists>e. NewSSTable dir ord t m fs = (Inl e, fs)"
  by (simp add: NewSSTable_def os_Create_def filepath_Join_def Let_def)

lemma compactSSTables_no_dir:
  assumes "filepath_Join (dataDir l) (compacted_name (now env 0)) \<notin> dirs fs"
  shows "\<exists>e. compactSSTables env l s1 s2 fs = (Inl e, fs)"
proof (cases "SSTable_List s1 fs")
  case (Inl e)
  then show ?thesis by (simp add: compactSSTables_def)
next
  case l1: (Inr es1)
  show ?thesis
  proof (cases "SSTable_List s2 fs")
    case (Inl e)
    then show ?thesis using l1 by (simp add: compactSSTables_def)
  next
    case (Inr es2)
    obtain e where "NewSSTable (filepath_Join (dataDir l) (compacted_name (now env 0)))
       (order env 3) (now env 1)
       (foldl (\<lambda>m kv. MemTable_Set (fst kv) (snd kv) m) NewMemTable
          (range_map (order env 2)
            (foldl merge_step (foldl merge_step [] (range_map (order env 0) es1))
              (range_map (order env 1) es2)))) fs = (Inl e, fs)"
      using NewSSTable_no_dir[OF assms] by blast
    then show ?thesis using l1 Inr by (simp add: compactSSTables_def Let_def)
  qed
qed

lemma triggerCompaction_unchanged:
  assumes "filepath_Join (dataDir (tree w)) (compacted_name (now env 0)) \<notin> dirs (disk w)"
    and "triggerCompaction env w = Some w'"
  shows "w' = w\<lparr>compactions := compactions w - 1\<rparr>"
proof -
  from assms(2) have m: "mutex (tree w) = Unlocked"
    by (cases "mutex (tree w)") (simp_all add: triggerCompaction_def split: if_splits)
  let ?w = "w\<lparr>tree := (tree w)\<lparr>mutex := Locked\<rparr>\<rparr>"
  obtain e where "compactSSTables env (tree ?w) (ssTables (tree ?w) ! 0) (ssTables (tree ?w) ! 1) (disk ?w)
                   = (Inl e, disk ?w)"
    using compactSSTables_no_dir[of "tree ?w" env "disk ?w"] assms(1) by auto
  then have "triggerCompaction_locked env ?w = ?w"
    by (simp add: triggerCompaction_locked_def Let_def)
  then show "w' = w\<lparr>compactions := compactions w - 1\<rparr>"
    using assms(2) m by (auto simp: triggerCompaction_def Let_def split: if_splits)
qed

text \<open>
  \<^bold>\<open>Claim C4\<close> (compaction). The claim says that compaction replaces the two oldest
  segments by one merged segment and deletes their files. In the code
  \<open>compactSSTables\<close> hands \<open>NewSSTable\<close> the path of the file it means to write as the
  directory to write into. No operation of the engine creates a directory, so that
  directory does not exist, \<open>os.Create\<close> fails, and \<open>triggerCompaction\<close> returns after
  printing the error: whenever the compaction goroutine runs, the registry and the file
  system stay as they are, also when the registry holds two segments or more.
\<close>

theorem compaction_changes_nothing:
  assumes "filepath_Join (dataDir (tree w)) (compacted_name (now env 0))
             \<notin> dirs (disk w)"
    and "triggerCompaction env w = Some w'"
  shows "ssTables (tree w') = ssTables (tree w) \<and> disk w' = disk w
         \<and> w' = w\<lparr>compactions := compactions w - 1\<rparr>"
  using triggerCompaction_unchanged[OF assms] by simp

theorem compaction_changes_nothing_witness:
  "filepath_Join (dataDir (tree (two_segments ''w''))) (compacted_name (now env0 0))
     \<notin> dirs (disk (two_segments ''w''))
   \<and> length (ssTables (tree (two_segments ''w''))) = 2
   \<and> triggerCompaction env0 (two_segments ''w'')
       = Some ((two_segments ''w'')\<lparr>compactions := 1\<rparr>)
   \<and> map filePath (ssTables (tree (two_segments ''w'')))
       = [dir0 @ [''sstable_0.dat''], dir0 @ [''sstable_1.dat'']]
   \<and> dom (files (disk (two_segments ''w'')))
       = {dir0 @ [''wal.log''], dir0 @ [''sstable_0.dat''], dir0 @ [''sstable_1.dat'']}"
proof -
  have h: "filepath_Join (dataDir (tree (two_segments ''w''))) (compacted_name (now env0 0))
     \<notin> dirs (disk (two_segments ''w''))"
    by (simp add: engine_defs runtime_defs input_defs2)
  have c: "compactions (two_segments ''w'') = 2" "mutex (tree (two_segments ''w'')) = Unlocked"
    by (simp_all add: engine_defs runtime_defs input_defs2)
  then obtain w' where t: "triggerCompaction env0 (two_segments ''w'') = Some w'"
    by (simp add: triggerCompaction_def Let_def)
  from compaction_changes_nothing [OF h t] have "w' = (two_segments ''w'')\<lparr>compactions := 1\<rparr>"
    using c by simp
  with h t show ?thesis
    by (auto simp add: engine_defs runtime_defs input_defs2)
qed

section \<open>Reading from segments\<close>

lemma takeWhile_line:
  "CHR 0x0A \<notin> set xs \<Longrightarrow> takeWhile (\<lambda>c. c \<noteq> CHR 0x0A) (xs @ CHR 0x0A # rest) = xs"
  by (induction xs) auto

lemma Scan_entry_line:
  assumes "line_ok key val"
  shows "Scan (entry_line key val @ rest) = Token (key @ CHR '','' # val) rest"
proof -
  let ?l = "key @ CHR '','' # val"
  have nl: "CHR 0x0A \<notin> set ?l" using assms by (auto simp: line_ok_def)
  have e: "entry_line key val @ rest = ?l @ CHR 0x0A # rest" by (simp add: entry_line_def)
  have t: "takeWhile (\<lambda>c. c \<noteq> CHR 0x0A) (entry_line key val @ rest) = ?l"
    unfolding e using nl by (rule takeWhile_line)
  have len: "length ?l < MaxScanTokenSize" using assms by (simp add: line_ok_def)
  have cr: "dropCR ?l = ?l" using assms by (auto simp: dropCR_def line_ok_def)
  have d: "drop (Suc (length ?l)) (entry_line key val @ rest) = rest"
    by (simp add: entry_line_def)
  have ne: "entry_line key val @ rest \<noteq> []" by (simp add: entry_line_def)
  show ?thesis
    unfolding Scan_def Let_def t using ne len cr d by simp
qed

lemma SplitN2_entry:
  "CHR '','' \<notin> set key \<Longrightarrow> SplitN2 (key @ CHR '','' # val) = [key, val]"
  by (simp add: SplitN2_def takeWhile_append2 dropWhile_append2 takeWhile_append1 dropWhile_append1)
     (induction key, auto)

lemma SSTable_Get_holds:
  assumes h: "sst_holds fs s key val" and ok: "line_ok key val"
  shows "SSTable_Get key s fs = Inr val"
proof -
  from h obtain off content where
    b: "MightContain (bloomFilter s) key" and i: "map_of (index s) key = Some off"
    and f: "files fs (filePath s) = Some content"
    and t: "take (length (entry_line key val)) (drop off content) = entry_line key val"
    by (auto simp: sst_holds_def split: option.splits)
  have "drop off content = entry_line key val @ drop (length (entry_line key val)) (drop off content)"
    using t by (metis append_take_drop_id)
  then obtain rest where r: "drop off content = entry_line key val @ rest" by blast
  have c: "CHR '','' \<notin> set key" using ok by (simp add: line_ok_def)
  show ?thesis
    using b i f by (simp add: SSTable_Get_def os_Open_def r Scan_entry_line[OF ok] SplitN2_entry[OF c] Let_def)
qed

lemma SSTable_Get_absent:
  "map_of (index s) key = None \<Longrightarrow> SSTable_Get key s fs = Inr ''''"
  by (simp add: SSTable_Get_def)

lemma Get_ssTables_newest:
  assumes "\<forall>s' \<in> set newer. map_of (index s') key = None"
    and "sst_holds (disk w) s key val" and "line_ok key val" and "val \<noteq> ''''"
  shows "Get_ssTables env key (rev newer @ s # rest) w
         = ((val, None),
            w\<lparr>tree := (tree w)\<lparr>cache := cache_Set (order env 0) (now env 0) key val (cache (tree w))\<rparr>\<rparr>)"
  using assms(1)
proof (induction newer rule: rev_induct)
  case Nil
  then show ?case using SSTable_Get_holds[OF assms(2,3)] assms(4) by simp
next
  case (snoc x xs)
  then show ?case by (simp add: SSTable_Get_absent)
qed


text \<open>
  Where the newest entry wins. Let the key be in neither the cache nor the buffer, so
  that \<open>Get\<close> reaches the segments. If \<open>s\<close> is the newest segment of the registry with
  an entry for the key, the value of that entry is not empty and the entry can be read
  back from its line, then \<open>Get\<close> returns that value, whatever the older segments hold
  for the key.
\<close>

theorem segment_precedence:
  assumes "ssTables (tree w) = older @ [s] @ newer"
    and "\<forall>s' \<in> set newer. map_of (index s') key = None"
    and "sst_holds (disk w) s key val" and "line_ok key val" and "val \<noteq> ''''"
    and "map_of (entries (cache (tree w))) key = None"
    and "map_of (data (memTable (tree w))) key = None"
    and "mutex (tree w) \<noteq> Locked"
  shows "map_option fst (LSMTree_Get env key w) = Some (val, None)"
proof -
  from assms(8) obtain mu where mu: "RLock (mutex (tree w)) = Some mu"
    by (cases "mutex (tree w)") auto
  let ?w = "w\<lparr>tree := (tree w)\<lparr>mutex := mu\<rparr>\<rparr>"
  have r: "rev (ssTables (tree w)) = rev newer @ s # rev older" using assms(1) by simp
  have h: "sst_holds (disk ?w) s key val" using assms(3) by simp
  have "fst (Get_locked env key ?w) = (val, None)"
    using assms(6,7) Get_ssTables_newest[OF assms(2) h assms(4,5), of env "rev older"]
    by (simp add: Get_locked_def cache_Get_def MemTable_Get_def r del: rev_append)
  then show ?thesis
    using mu by (auto simp add: LSMTree_Get_def split: prod.splits)
qed

theorem segment_precedence_witness:
  "map_option fst (LSMTree_Get env0 ''k'' (two_segments_uncached ''w'')) = Some (''w'', None)
   \<and> map (\<lambda>s. map_of (index s) ''k'') (ssTables (tree (two_segments_uncached ''w''))) = [Some 0, Some 0]
   \<and> sst_holds (disk (two_segments_uncached ''w'')) (ssTables (tree (two_segments_uncached ''w'')) ! 0) ''k'' ''v''
   \<and> sst_holds (disk (two_segments_uncached ''w'')) (ssTables (tree (two_segments_uncached ''w'')) ! 1) ''k'' ''w''"
proof -
  let ?w = "two_segments_uncached ''w''"
  have 1: "ssTables (tree ?w) = [ssTables (tree ?w) ! 0] @ [ssTables (tree ?w) ! 1] @ []"
    by (simp add: engine_defs runtime_defs input_defs2)
  have 2: "\<forall>s' \<in> set []. map_of (index s') ''k'' = None" by simp
  have 3: "sst_holds (disk ?w) (ssTables (tree ?w) ! 1) ''k'' ''w''"
    by (simp add: sst_holds_def engine_defs runtime_defs input_defs2 MightContain_Add_same)
  have h0: "sst_holds (disk ?w) (ssTables (tree ?w) ! 0) ''k'' ''v''"
    by (simp add: sst_holds_def engine_defs runtime_defs input_defs2 MightContain_Add_same)
  have 4: "line_ok ''k'' ''w''" by (simp add: line_ok_def MaxScanTokenSize_def)
  have 5: "''w'' \<noteq> ''''" by simp
  have 6: "map_of (entries (cache (tree ?w))) ''k'' = None"
    and 7: "map_of (data (memTable (tree ?w))) ''k'' = None"
    and 8: "mutex (tree ?w) \<noteq> Locked"
    by (simp_all add: engine_defs runtime_defs input_defs2)
  have 9: "map (\<lambda>s. map_of (index s) ''k'') (ssTables (tree ?w)) = [Some 0, Some 0]"
    by (simp add: engine_defs runtime_defs input_defs2)
  from segment_precedence [OF 1 2 3 4 5 6 7 8, of env0] 3 h0 9 show ?thesis by simp
qed

lemma Get_ssTables_skip:
  "\<forall>s' \<in> set xs. SSTable_Get key s' (disk w) = Inr '''' \<Longrightarrow>
   Get_ssTables env key (xs @ rest) w = Get_ssTables env key rest w"
  by (induction xs) simp_all

lemma line_ok_tombstone: "line_ok key val \<Longrightarrow> line_ok key ''''"
  by (simp add: line_ok_def)

text \<open>
  \<^bold>\<open>Claim C5\<close> (segment precedence). The claim says that when two segments both
  hold an entry for a key, a \<open>Get\<close> that reaches the segments observes the value of the
  newer one. In the code this fails when the newer entry is a tombstone, the empty value
  that \<open>Set(k, "")\<close> writes: \<open>SSTable.Get\<close> returns the empty string for it, the loop of
  \<open>Get\<close> takes the empty string for ``not in this segment'' and goes on, and \<open>Get\<close>
  returns the value of the older segment. Let the key be in neither the cache nor the
  buffer, let \<open>s1\<close> be the newest segment with an entry for the key and hold the empty
  value, and let \<open>s0\<close> be the next older segment with an entry for the key and hold a
  value \<open>val\<close> that is not empty and can be read back from its line. Then \<open>Get\<close> returns
  \<open>val\<close>.
\<close>

theorem newer_tombstone_is_skipped:
  assumes "ssTables (tree w) = older @ [s0] @ mid @ [s1] @ newer"
    and "\<forall>s' \<in> set mid \<union> set newer. map_of (index s') key = None"
    and "sst_holds (disk w) s1 key ''''"
    and "sst_holds (disk w) s0 key val" and "line_ok key val" and "val \<noteq> ''''"
    and "map_of (entries (cache (tree w))) key = None"
    and "map_of (data (memTable (tree w))) key = None"
    and "mutex (tree w) \<noteq> Locked"
  shows "map_option fst (LSMTree_Get env key w) = Some (val, None)"
proof -
  from assms(9) obtain mu where mu: "RLock (mutex (tree w)) = Some mu"
    by (cases "mutex (tree w)") auto
  let ?w = "w\<lparr>tree := (tree w)\<lparr>mutex := mu\<rparr>\<rparr>"
  let ?xs = "rev newer @ s1 # rev mid"
  have r: "rev (ssTables (tree w)) = ?xs @ s0 # rev older" using assms(1) by simp
  have t: "SSTable_Get key s1 (disk ?w) = Inr ''''"
    using SSTable_Get_holds[OF assms(3) line_ok_tombstone[OF assms(5)]] by simp
  have skip: "\<forall>s' \<in> set ?xs. SSTable_Get key s' (disk ?w) = Inr ''''"
    using assms(2) t by (auto simp: SSTable_Get_absent)
  have v: "SSTable_Get key s0 (disk ?w) = Inr val"
    using SSTable_Get_holds[OF assms(4,5)] by simp
  have "fst (Get_ssTables env key (?xs @ s0 # rev older) ?w) = (val, None)"
    unfolding Get_ssTables_skip[OF skip] using v assms(6) by simp
  then have "fst (Get_locked env key ?w) = (val, None)"
    using assms(7,8) by (simp add: Get_locked_def cache_Get_def MemTable_Get_def r del: rev_append)
  then show ?thesis
    using mu by (auto simp add: LSMTree_Get_def split: prod.splits)
qed

text \<open>
  The engine with two segments that hold the key \<^verbatim>\<open>k\<close>, the older one with the value
  \<^verbatim>\<open>v\<close>, the newer one with the tombstone: the newer segment answers the empty string,
  and \<open>Get\<close> returns \<^verbatim>\<open>v\<close>.
\<close>

theorem newer_tombstone_is_skipped_witness:
  "map (\<lambda>s. map_of (index s) ''k'') (ssTables (tree (two_segments_uncached ''''))) = [Some 0, Some 0]
   \<and> sst_holds (disk (two_segments_uncached ''''))
        (ssTables (tree (two_segments_uncached '''')) ! 0) ''k'' ''v''
   \<and> sst_holds (disk (two_segments_uncached ''''))
        (ssTables (tree (two_segments_uncached '''')) ! 1) ''k'' ''''
   \<and> SSTable_Get ''k'' (ssTables (tree (two_segments_uncached '''')) ! 1)
        (disk (two_segments_uncached '''')) = Inr ''''
   \<and> map_option fst (LSMTree_Get env0 ''k'' (two_segments_uncached '''')) = Some (''v'', None)"
proof -
  let ?w = "two_segments_uncached ''''"
  have 1: "ssTables (tree ?w) = [] @ [ssTables (tree ?w) ! 0] @ [] @ [ssTables (tree ?w) ! 1] @ []"
    by (simp add: engine_defs runtime_defs input_defs2)
  have 2: "\<forall>s' \<in> set [] \<union> set []. map_of (index s') ''k'' = None" by simp
  have 3: "sst_holds (disk ?w) (ssTables (tree ?w) ! 1) ''k'' ''''"
    by (simp add: sst_holds_def engine_defs runtime_defs input_defs2 MightContain_Add_same)
  have 4: "sst_holds (disk ?w) (ssTables (tree ?w) ! 0) ''k'' ''v''"
    by (simp add: sst_holds_def engine_defs runtime_defs input_defs2 MightContain_Add_same)
  have 5: "line_ok ''k'' ''v''" by (simp add: line_ok_def MaxScanTokenSize_def)
  have 6: "''v'' \<noteq> ''''" by simp
  have 7: "map_of (entries (cache (tree ?w))) ''k'' = None"
    and 8: "map_of (data (memTable (tree ?w))) ''k'' = None"
    and 9: "mutex (tree ?w) \<noteq> Locked"
    by (simp_all add: engine_defs runtime_defs input_defs2)
  have 10: "map (\<lambda>s. map_of (index s) ''k'') (ssTables (tree ?w)) = [Some 0, Some 0]"
    by (simp add: engine_defs runtime_defs input_defs2)
  have 11: "SSTable_Get ''k'' (ssTables (tree ?w) ! 1) (disk ?w) = Inr ''''"
    using SSTable_Get_holds[OF 3 line_ok_tombstone[OF 5]] .
  from newer_tombstone_is_skipped [OF 1 2 3 4 5 6 7 8 9, of env0] 3 4 10 11 show ?thesis by simp
qed

text \<open>
  The same engine seen through \<open>List\<close>: the key is listed with the value that was
  deleted.
\<close>

lemma tombstone_in_newer_segment_is_skipped:
  "sst_holds (disk (two_segments_uncached ''''))
        (ssTables (tree (two_segments_uncached '''')) ! 0) ''k'' ''v''
   \<and> sst_holds (disk (two_segments_uncached ''''))
        (ssTables (tree (two_segments_uncached '''')) ! 1) ''k'' ''''
   \<and> map_option fst (LSMTree_Get env0 ''k'' (two_segments_uncached '''')) = Some (''v'', None)
   \<and> map_option fst (LSMTree_List env0 (two_segments_uncached '''')) = Some (Inr [(''k'', ''v'')])"
  by (simp add: sst_holds_def engine_defs runtime_defs input_defs2 MightContain_Add_same)

section \<open>Writing segments\<close>

lemma distinct_range_map: "distinct (map f xs) \<Longrightarrow> distinct (map f (range_map cs xs))"
proof (induction cs arbitrary: xs)
  case Nil
  then show ?case by simp
next
  case (Cons c cs)
  show ?case
  proof (cases "xs = []")
    case True
    then show ?thesis by simp
  next
    case False
    let ?i = "c mod length xs"
    let ?r = "take ?i xs @ drop (Suc ?i) xs"
    have i: "?i < length xs" using False by simp
    have xs: "xs = take ?i xs @ xs ! ?i # drop (Suc ?i) xs"
      using i by (rule id_take_nth_drop)
    have d: "distinct (map f (take ?i xs @ xs ! ?i # drop (Suc ?i) xs))"
      using Cons.prems xs by simp
    then have dr: "distinct (map f ?r)" and nin: "f (xs ! ?i) \<notin> f ` set ?r" by auto
    from Cons.IH[OF dr] nin show ?thesis using False by simp
  qed
qed

lemma take_drop_append_left:
  assumes "take n (drop o' out) = l" and "length l = n"
  shows "take n (drop o' (out @ ext)) = l"
proof -
  have "length (take n (drop o' out)) = n" using assms by simp
  then have "n \<le> length out - o'" by simp
  then show ?thesis using assms(1) by simp
qed

lemma sstable_fold:
  assumes "distinct (map fst (ys @ xs))"
    and "off = length out" and "bf_wf bf" and "fst ` set idx = fst ` set ys"
    and "\<forall>x \<in> set ys. MightContain bf (fst x) \<and>
           (\<exists>o'. map_of idx (fst x) = Some o' \<and>
                 take (length (entry_line (fst x) (snd x))) (drop o' out) = entry_line (fst x) (snd x))"
  shows "case foldl sstable_step (out, bf, idx, off) xs of
           (out', bf', idx', off') \<Rightarrow>
             off' = length out' \<and> bf_wf bf' \<and> fst ` set idx' = fst ` set (ys @ xs) \<and>
             (\<forall>x \<in> set (ys @ xs). MightContain bf' (fst x) \<and>
                (\<exists>o'. map_of idx' (fst x) = Some o' \<and>
                      take (length (entry_line (fst x) (snd x))) (drop o' out')
                        = entry_line (fst x) (snd x)))"
  using assms
proof (induction xs arbitrary: out bf idx off ys)
  case Nil
  then show ?case by simp
next
  case (Cons x xs)
  obtain k v where x: "x = (k, v)" by (cases x)
  let ?line = "entry_line k v"
  have step: "sstable_step (out, bf, idx, off) x
     = (out @ ?line, Add bf k, AList.update k off idx, off + length ?line)"
    by (simp add: sstable_step_def x)
  have d: "distinct (map fst ((ys @ [x]) @ xs))" using Cons.prems(1) by simp
  have knew: "k \<notin> fst ` set ys" using Cons.prems(1) x by auto
  have 2: "off + length ?line = length (out @ ?line)" using Cons.prems(2) by simp
  have 3: "bf_wf (Add bf k)" using Cons.prems(3) by simp
  have 4: "fst ` set (AList.update k off idx) = fst ` set (ys @ [x])"
    using Cons.prems(4) by (simp add: AList.dom_update x)
  have 5: "\<forall>y \<in> set (ys @ [x]). MightContain (Add bf k) (fst y) \<and>
           (\<exists>o'. map_of (AList.update k off idx) (fst y) = Some o' \<and>
                 take (length (entry_line (fst y) (snd y))) (drop o' (out @ ?line))
                   = entry_line (fst y) (snd y))"
  proof
    fix y assume y: "y \<in> set (ys @ [x])"
    show "MightContain (Add bf k) (fst y) \<and>
           (\<exists>o'. map_of (AList.update k off idx) (fst y) = Some o' \<and>
                 take (length (entry_line (fst y) (snd y))) (drop o' (out @ ?line))
                   = entry_line (fst y) (snd y))"
    proof (cases "y = x")
      case True
      then show ?thesis
        using Cons.prems(2,3) by (simp add: x MightContain_Add_same AList.update_conv')
    next
      case False
      then have yin: "y \<in> set ys" using y by simp
      then have ne: "fst y \<noteq> k" using knew by auto
      from Cons.prems(5) yin obtain o' where
        m: "MightContain bf (fst y)" and o: "map_of idx (fst y) = Some o'"
        and t: "take (length (entry_line (fst y) (snd y))) (drop o' out) = entry_line (fst y) (snd y)"
        by blast
      have "take (length (entry_line (fst y) (snd y))) (drop o' (out @ ?line)) = entry_line (fst y) (snd y)"
        using t by (rule take_drop_append_left) simp
      then show ?thesis
        using m o ne Cons.prems(3) by (simp add: MightContain_Add_mono AList.update_conv')
    qed
  qed
  from Cons.IH[OF d 2 3 4 5] show ?case by (simp add: step)
qed


lemma NewSSTable_holds:
  assumes "distinct (map fst (data m))" and "dir \<in> dirs fs"
    and "filepath_Join dir (sstable_name t) \<notin> dirs fs"
  shows "\<exists>s content. NewSSTable dir ord t m fs
            = (Inr s, fs\<lparr>files := (files fs)(filepath_Join dir (sstable_name t) \<mapsto> content)\<rparr>)
          \<and> filePath s = filepath_Join dir (sstable_name t)
          \<and> fst ` set (index s) = fst ` set (data m)
          \<and> (\<forall>x \<in> set (data m).
                sst_holds (fs\<lparr>files := (files fs)(filepath_Join dir (sstable_name t) \<mapsto> content)\<rparr>)
                  s (fst x) (snd x))"
proof -
  let ?name = "filepath_Join dir (sstable_name t)"
  let ?xs = "range_map ord (data m)"
  have c: "os_Create ?name fs = Inr (fs\<lparr>files := (files fs)(?name \<mapsto> [])\<rparr>)"
    using assms(2,3) by (simp add: os_Create_def filepath_Join_def)
  have d: "distinct (map fst ([] @ ?xs))" using assms(1) by (simp add: distinct_range_map)
  obtain out bf idx off where f: "foldl sstable_step ([], NewBloomFilter, [], 0) ?xs = (out, bf, idx, off)"
    by (metis prod_cases4)
  have init: "\<forall>x \<in> set []. MightContain NewBloomFilter (fst x) \<and>
           (\<exists>o'. map_of [] (fst x) = Some o' \<and>
                 take (length (entry_line (fst x) (snd x))) (drop o' [])
                   = entry_line (fst x) (snd x))" by simp
  have "case foldl sstable_step ([], NewBloomFilter, [], 0) ?xs of
           (out', bf', idx', off') \<Rightarrow>
             off' = length out' \<and> bf_wf bf' \<and> fst ` set idx' = fst ` set ([] @ ?xs) \<and>
             (\<forall>x \<in> set ([] @ ?xs). MightContain bf' (fst x) \<and>
                (\<exists>o'. map_of idx' (fst x) = Some o' \<and>
                      take (length (entry_line (fst x) (snd x))) (drop o' out')
                        = entry_line (fst x) (snd x)))"
    by (rule sstable_fold[OF d _ _ _ init]) simp_all
  then have r: "fst ` set idx = fst ` set (data m)"
    "\<forall>x \<in> set (data m). MightContain bf (fst x) \<and>
        (\<exists>o'. map_of idx (fst x) = Some o' \<and>
              take (length (entry_line (fst x) (snd x))) (drop o' out) = entry_line (fst x) (snd x))"
    unfolding f by simp_all
  let ?s = "\<lparr>filePath = ?name, bloomFilter = bf, index = idx\<rparr>"
  let ?fs = "fs\<lparr>files := (files fs)(?name \<mapsto> out)\<rparr>"
  have n: "NewSSTable dir ord t m fs = (Inr ?s, ?fs)"
    by (simp add: NewSSTable_def Let_def c f Entries_def WriteString_def)
  have h: "\<forall>x \<in> set (data m). sst_holds ?fs ?s (fst x) (snd x)"
  proof
    fix x assume "x \<in> set (data m)"
    with r(2) obtain o' where "MightContain bf (fst x)" "map_of idx (fst x) = Some o'"
      "take (length (entry_line (fst x) (snd x))) (drop o' out) = entry_line (fst x) (snd x)"
      by blast
    then show "sst_holds ?fs ?s (fst x) (snd x)" by (simp add: sst_holds_def)
  qed
  show ?thesis
    apply (rule exI[of _ ?s])
    apply (rule exI[of _ out])
    using n r(1) h apply simp
    done
qed

section \<open>Runs of the engine\<close>

subsection \<open>File names\<close>

lemma digit_cases: "d < 10 \<Longrightarrow> d = 0 \<or> d = 1 \<or> d = 2 \<or> d = 3 \<or> d = 4 \<or> d = 5 \<or> d = 6 \<or> d = 7 \<or> d = 8 \<or> d = (9 :: nat)"
  by arith

lemma digit_char_inj: "a < 10 \<Longrightarrow> b < 10 \<Longrightarrow> digit_char a = digit_char b \<Longrightarrow> a = b"
  using digit_cases[of a] digit_cases[of b] by (auto simp: digit_char_def)

lemma digit_char_not_minus: "d < 10 \<Longrightarrow> digit_char d \<noteq> CHR ''-''"
  using digit_cases[of d] by (auto simp: digit_char_def)

lemma digits_nonempty: "digits n \<noteq> []"
  by (induction n rule: digits.induct) (subst digits.simps, simp)

lemma hd_digits: "hd (digits n) \<noteq> CHR ''-''"
proof (induction n rule: digits.induct)
  case (1 n)
  show ?case
  proof (cases "n < 10")
    case True
    then show ?thesis by (subst digits.simps) (simp add: digit_char_not_minus)
  next
    case False
    then show ?thesis using 1 digits_nonempty[of "n div 10"]
      by (subst digits.simps) simp
  qed
qed

lemma digits_inj: "digits m = digits n \<Longrightarrow> m = n"
proof (induction m arbitrary: n rule: digits.induct)
  case (1 m)
  show ?case
  proof (cases "m < 10")
    case m: True
    show ?thesis
    proof (cases "n < 10")
      case True
      then show ?thesis using m "1.prems" digit_char_inj[of m n]
        by (simp add: digits.simps[of m] digits.simps[of n])
    next
      case False
      then show ?thesis using m "1.prems" digits_nonempty[of "n div 10"]
        by (simp add: digits.simps[of m] digits.simps[of n])
    qed
  next
    case m: False
    show ?thesis
    proof (cases "n < 10")
      case True
      then show ?thesis using m "1.prems" digits_nonempty[of "m div 10"]
        by (simp add: digits.simps[of m] digits.simps[of n])
    next
      case False
      then have e: "digits (m div 10) = digits (n div 10)" "digit_char (m mod 10) = digit_char (n mod 10)"
        using m "1.prems" by (simp_all add: digits.simps[of m] digits.simps[of n])
      have "m div 10 = n div 10" using "1.IH"[OF m e(1)] .
      moreover have "m mod 10 = n mod 10" using e(2) by (intro digit_char_inj) simp_all
      ultimately show ?thesis by (metis div_mult_mod_eq)
    qed
  qed
qed

lemma itoa_inj: "itoa a = itoa b \<Longrightarrow> a = b"
proof -
  assume e: "itoa a = itoa b"
  have h: "CHR ''-'' # xs \<noteq> digits n" for xs n
    using hd_digits[of n] by (metis list.sel(1))
  show ?thesis
  proof (cases "a < 0")
    case a: True
    show ?thesis
    proof (cases "b < 0")
      case True
      then have "digits (nat (- a)) = digits (nat (- b))" using a e by (simp add: itoa_def del: digits.simps)
      then have "nat (- a) = nat (- b)" by (rule digits_inj)
      then show ?thesis using a True by simp
    next
      case False
      then show ?thesis using a e h[of "digits (nat (- a))" "nat b"] by (simp add: itoa_def del: digits.simps)
    qed
  next
    case a: False
    show ?thesis
    proof (cases "b < 0")
      case True
      then show ?thesis using a e h[of "digits (nat (- b))" "nat a"] by (simp add: itoa_def del: digits.simps)
    next
      case False
      then have "digits (nat a) = digits (nat b)" using a e by (simp add: itoa_def del: digits.simps)
      then have "nat a = nat b" by (rule digits_inj)
      then show ?thesis using a False by simp
    qed
  qed
qed

lemma sstable_name_inj: "sstable_name a = sstable_name b \<Longrightarrow> a = b"
  by (simp add: sstable_name_def itoa_inj)

lemma sstable_name_not_wal: "sstable_name t \<noteq> ''wal.log''"
  by (simp add: sstable_name_def)

subsection \<open>One call of Set\<close>

lemma WAL_Log_ok:
  assumes "dir \<in> dirs fs" and "filepath_Join dir ''wal.log'' \<notin> dirs fs"
  shows "\<exists>fs1. WAL_Log (NewWAL dir) k v fs = (None, fs1) \<and> dirs fs1 = dirs fs \<and>
           (\<forall>p. p \<noteq> filepath_Join dir ''wal.log'' \<longrightarrow> files fs1 p = files fs p)"
  using assms
  by (cases "files fs (filepath_Join dir ''wal.log'')")
     (simp_all add: WAL_Log_def NewWAL_def os_OpenFile_append_def WriteString_def filepath_Join_def)

lemma sst_holds_frame:
  "files fs' (filePath s) = files fs (filePath s) \<Longrightarrow> sst_holds fs' s k v = sst_holds fs s k v"
  by (simp add: sst_holds_def cong: option.case_cong)

lemma cache_Set_lookup:
  assumes "map_of (entries (cache_Set ord t k v c)) key = Some e"
  shows "(k = key \<and> value_e e = v) \<or> (k \<noteq> key \<and> map_of (entries c) key = Some e)"
proof -
  let ?c1 = "if int (length (entries c)) \<ge> maxSize c then evict ord c else c"
  have sub: "map_of (entries ?c1) key = Some e \<Longrightarrow> map_of (entries c) key = Some e"
    by (auto simp: evict_def Let_def AList.delete_conv' split: if_splits)
  have "map_of (AList.update k \<lparr>value_e = v, timestamp = t\<rparr> (entries ?c1)) key = Some e"
    using assms by (simp add: cache_Set_def Let_def)
  then show ?thesis using sub by (auto simp: AList.update_conv' split: if_splits)
qed

lemma Set_result_noflush:
  assumes "mutex (tree w) = Unlocked" and "WAL_Log (wal (tree w)) k v (disk w) = (None, fs1)"
    and "\<not> memTableSizeThreshold \<le> length (AList.update k v (data (memTable (tree w))))"
  shows "LSMTree_Set env k v w =
           Some (None, w\<lparr>tree := (tree w)\<lparr>memTable := MemTable_Set k v (memTable (tree w)),
                                          cache := cache_Set (order env 0) (now env 0) k v (cache (tree w))\<rparr>,
                          disk := fs1\<rparr>)"
  using assms
  by (simp add: LSMTree_Set_def Set_locked_def Let_def MemTable_Size_def MemTable_Set_def)

lemma Set_result_flush:
  assumes "mutex (tree w) = Unlocked" and "WAL_Log (wal (tree w)) k v (disk w) = (None, fs1)"
    and "memTableSizeThreshold \<le> length (AList.update k v (data (memTable (tree w))))"
    and "NewSSTable (dataDir (tree w)) (order env 1) (now env 1)
           (MemTable_Set k v (memTable (tree w))) fs1 = (Inr s, fs2)"
  shows "LSMTree_Set env k v w =
           Some (None, w\<lparr>tree := (tree w)\<lparr>memTable := NewMemTable,
                                          ssTables := ssTables (tree w) @ [s],
                                          cache := cache_Set (order env 0) (now env 0) k v (cache (tree w))\<rparr>,
                          disk := fs2, compactions := Suc (compactions w)\<rparr>)"
  using assms
  by (simp add: LSMTree_Set_def Set_locked_def Let_def MemTable_Size_def MemTable_Set_def
      flushMemTable_def)


lemma map_of_None_keys: "(map_of al k = None) = (k \<notin> fst ` set al)"
  by (simp add: map_of_eq_None_iff)

lemma Set_step:
  assumes fr: "engine_frame dir used w n" and ki: "key_inv key w l" and fresh: "now env 1 \<notin> used"
  shows "\<exists>w'. LSMTree_Set env k v w = Some (None, w')
            \<and> engine_frame dir (insert (now env 1) used) w' (Suc n)
            \<and> key_inv key w' (if k = key then Some v else l)"
proof -
  let ?walp = "filepath_Join dir ''wal.log''"
  let ?mt = "AList.update k v (data (memTable (tree w)))"
  let ?c = "cache_Set (order env 0) (now env 0) k v (cache (tree w))"
  let ?l = "if k = key then Some v else l"
  from fr have mu: "mutex (tree w) = Unlocked" and dd: "dataDir (tree w) = dir"
    and wa: "wal (tree w) = NewWAL dir" and din: "dir \<in> dirs (disk w)"
    and nosub: "\<And>name. filepath_Join dir name \<notin> dirs (disk w)"
    and dist: "distinct (map fst (data (memTable (tree w))))"
    and len: "length (data (memTable (tree w))) \<le> n"
    and segs: "ssTables (tree w) \<noteq> [] \<Longrightarrow> memTableSizeThreshold \<le> n"
    and paths: "\<And>s. s \<in> set (ssTables (tree w)) \<Longrightarrow> \<exists>t \<in> used. filePath s = filepath_Join dir (sstable_name t)"
    by (auto simp: engine_frame_def)
  from ki have kc: "\<And>e. map_of (entries (cache (tree w))) key = Some e \<Longrightarrow> l = Some (value_e e)"
    and km: "\<And>x. map_of (data (memTable (tree w))) key = Some x \<Longrightarrow> l = Some x"
    and ks: "\<And>x. l = Some x \<Longrightarrow> map_of (data (memTable (tree w))) key = None \<Longrightarrow>
         \<exists>older s newer. ssTables (tree w) = older @ [s] @ newer \<and>
            (\<forall>s' \<in> set newer. map_of (index s') key = None) \<and> sst_holds (disk w) s key x"
    by (auto simp: key_inv_def)
  obtain fs1 where wl: "WAL_Log (wal (tree w)) k v (disk w) = (None, fs1)"
    and d1: "dirs fs1 = dirs (disk w)"
    and f1: "\<And>p. p \<noteq> ?walp \<Longrightarrow> files fs1 p = files (disk w) p"
    using WAL_Log_ok[OF din nosub[of "''wal.log''"], of k v] wa by auto
  have dmt: "distinct (map fst ?mt)" using dist by (rule AList.distinct_update)
  have lmt: "length ?mt \<le> Suc n" using length_update_le[of k v "data (memTable (tree w))"] len by simp
  have seg1: "files fs1 (filePath s) = files (disk w) (filePath s)" if "s \<in> set (ssTables (tree w))" for s
  proof -
    from paths[OF that] obtain t where "filePath s = filepath_Join dir (sstable_name t)" by blast
    then have "filePath s \<noteq> ?walp" by (simp add: filepath_Join_def sstable_name_not_wal)
    then show ?thesis by (rule f1)
  qed
  have kc': "?l = Some (value_e e)" if a: "map_of (entries ?c) key = Some e" for e
  proof -
    from cache_Set_lookup[OF a]
    consider "k = key \<and> value_e e = v" | "k \<noteq> key \<and> map_of (entries (cache (tree w))) key = Some e"
      by blast
    then show ?thesis
    proof cases
      case 1
      then show ?thesis by simp
    next
      case 2
      then show ?thesis using kc[of e] by simp
    qed
  qed
  have km': "?l = Some x" if a: "map_of ?mt key = Some x" for x
  proof (cases "k = key")
    case True
    then show ?thesis using a by (simp add: AList.update_conv')
  next
    case False
    then have "map_of (data (memTable (tree w))) key = Some x" using a by (simp add: AList.update_conv')
    then show ?thesis using km[of x] False by simp
  qed
  have knone: "k \<noteq> key \<and> map_of (data (memTable (tree w))) key = None" if a: "map_of ?mt key = None"
  proof (cases "k = key")
    case True
    then show ?thesis using a by (simp add: AList.update_conv')
  next
    case False
    then show ?thesis using a by (simp add: AList.update_conv')
  qed
  show ?thesis
  proof (cases "memTableSizeThreshold \<le> length ?mt")
    case False
    let ?w' = "w\<lparr>tree := (tree w)\<lparr>memTable := MemTable_Set k v (memTable (tree w)), cache := ?c\<rparr>,
                  disk := fs1\<rparr>"
    have r: "LSMTree_Set env k v w = Some (None, ?w')"
      using mu wl False by (rule Set_result_noflush)
    have p': "\<forall>s \<in> set (ssTables (tree w)). \<exists>t \<in> insert (now env 1) used. filePath s = filepath_Join dir (sstable_name t)"
      using paths by blast
    have sg: "ssTables (tree w) \<noteq> [] \<longrightarrow> memTableSizeThreshold \<le> Suc n" using segs by auto
    have fr': "engine_frame dir (insert (now env 1) used) ?w' (Suc n)"
      unfolding engine_frame_def using mu dd wa din nosub dmt lmt sg p' d1
      by (simp add: MemTable_Set_def)
    have ks': "\<exists>older s newer. ssTables (tree w) = older @ [s] @ newer \<and>
            (\<forall>s' \<in> set newer. map_of (index s') key = None) \<and> sst_holds fs1 s key x"
      if "?l = Some x" "map_of ?mt key = None" for x
    proof -
      from knone[OF that(2)] that(1) have "l = Some x" "map_of (data (memTable (tree w))) key = None"
        by auto
      from ks[OF this] obtain older s newer where
        o: "ssTables (tree w) = older @ [s] @ newer" "\<forall>s' \<in> set newer. map_of (index s') key = None"
        "sst_holds (disk w) s key x" by blast
      then have "s \<in> set (ssTables (tree w))" by simp
      then have fe: "files fs1 (filePath s) = files (disk w) (filePath s)" by (rule seg1)
      have "sst_holds fs1 s key x" using o(3) sst_holds_frame[OF fe, of key x] by simp
      with o show ?thesis by blast
    qed
    have ki': "key_inv key ?w' ?l"
      unfolding key_inv_def using kc' km' ks' by (simp add: MemTable_Set_def)
    from r fr' ki' show ?thesis by blast
  next
    case True
    let ?name = "filepath_Join dir (sstable_name (now env 1))"
    let ?m = "MemTable_Set k v (memTable (tree w))"
    have dm: "distinct (map fst (data ?m))" using dmt by (simp add: MemTable_Set_def)
    have din1: "dir \<in> dirs fs1" using din d1 by simp
    have nd1: "?name \<notin> dirs fs1" using nosub d1 by simp
    from NewSSTable_holds[OF dm din1 nd1, of "order env 1"] obtain s where
      "\<exists>content. NewSSTable dir (order env 1) (now env 1) ?m fs1
            = (Inr s, fs1\<lparr>files := (files fs1)(?name \<mapsto> content)\<rparr>)
          \<and> filePath s = ?name
          \<and> fst ` set (index s) = fst ` set (data ?m)
          \<and> (\<forall>x \<in> set (data ?m).
                sst_holds (fs1\<lparr>files := (files fs1)(?name \<mapsto> content)\<rparr>) s (fst x) (snd x))" ..
    then obtain content where all:
      "NewSSTable dir (order env 1) (now env 1) ?m fs1
            = (Inr s, fs1\<lparr>files := (files fs1)(?name \<mapsto> content)\<rparr>)
          \<and> filePath s = ?name
          \<and> fst ` set (index s) = fst ` set (data ?m)
          \<and> (\<forall>x \<in> set (data ?m).
                sst_holds (fs1\<lparr>files := (files fs1)(?name \<mapsto> content)\<rparr>) s (fst x) (snd x))" ..
    from all have n: "NewSSTable dir (order env 1) (now env 1) ?m fs1 = (Inr s, fs1\<lparr>files := (files fs1)(?name \<mapsto> content)\<rparr>)"
      and sp: "filePath s = ?name"
      and si: "fst ` set (index s) = fst ` set (data ?m)"
      and sh0: "\<forall>x \<in> set (data ?m). sst_holds (fs1\<lparr>files := (files fs1)(?name \<mapsto> content)\<rparr>) s (fst x) (snd x)"
      by simp_all
    let ?fs2 = "fs1\<lparr>files := (files fs1)(?name \<mapsto> content)\<rparr>"
    let ?w' = "w\<lparr>tree := (tree w)\<lparr>memTable := NewMemTable, ssTables := ssTables (tree w) @ [s], cache := ?c\<rparr>,
                  disk := ?fs2, compactions := Suc (compactions w)\<rparr>"
    have r: "LSMTree_Set env k v w = Some (None, ?w')"
      using Set_result_flush[OF mu wl True, of env s ?fs2] n dd by simp
    have th: "memTableSizeThreshold \<le> Suc n" using True lmt by simp
    have p': "\<forall>s0 \<in> set (ssTables (tree w) @ [s]). \<exists>t \<in> insert (now env 1) used. filePath s0 = filepath_Join dir (sstable_name t)"
      using paths sp by auto
    have fr': "engine_frame dir (insert (now env 1) used) ?w' (Suc n)"
      unfolding engine_frame_def using mu dd wa din nosub th p' d1
      by (simp add: NewMemTable_def)
    have seg2: "files ?fs2 (filePath s0) = files (disk w) (filePath s0)" if "s0 \<in> set (ssTables (tree w))" for s0
    proof -
      from paths[OF that] obtain t where t: "t \<in> used" "filePath s0 = filepath_Join dir (sstable_name t)" by blast
      then have "t \<noteq> now env 1" using fresh by auto
      then have "sstable_name t \<noteq> sstable_name (now env 1)" using sstable_name_inj[of t "now env 1"] by blast
      then have "filePath s0 \<noteq> ?name" using t(2) by (simp add: filepath_Join_def)
      then show ?thesis using seg1[OF that] by simp
    qed
    have ks': "\<exists>older s0 newer. ssTables (tree w) @ [s] = older @ [s0] @ newer \<and>
            (\<forall>s' \<in> set newer. map_of (index s') key = None) \<and> sst_holds ?fs2 s0 key x"
      if lx: "?l = Some x" for x
    proof (cases "map_of ?mt key")
      case None
      from knone[OF None] lx have "l = Some x" "map_of (data (memTable (tree w))) key = None"
        by auto
      from ks[OF this] obtain older s0 newer where
        o: "ssTables (tree w) = older @ [s0] @ newer" "\<forall>s' \<in> set newer. map_of (index s') key = None"
        "sst_holds (disk w) s0 key x" by blast
      then have "s0 \<in> set (ssTables (tree w))" by simp
      then have fe: "files ?fs2 (filePath s0) = files (disk w) (filePath s0)" by (rule seg2)
      have h: "sst_holds ?fs2 s0 key x" using o(3) sst_holds_frame[OF fe, of key x] by simp
      have "key \<notin> fst ` set (index s)" using None si by (simp add: map_of_None_keys MemTable_Set_def)
      then have "map_of (index s) key = None" by (simp add: map_of_None_keys)
      then have "\<forall>s' \<in> set (newer @ [s]). map_of (index s') key = None" using o(2) by simp
      moreover have "ssTables (tree w) @ [s] = older @ [s0] @ (newer @ [s])" using o(1) by simp
      ultimately show ?thesis using h by blast
    next
      case (Some y)
      then have "y = x" using km'[OF Some] lx by simp
      then have "(key, x) \<in> set (data ?m)" using Some by (simp add: MemTable_Set_def map_of_SomeD)
      with sh0 have "sst_holds ?fs2 s key x" by force
      moreover have "ssTables (tree w) @ [s] = ssTables (tree w) @ [s] @ []" by simp
      moreover have "\<forall>s' \<in> set []. map_of (index s') key = None" by simp
      ultimately show ?thesis by blast
    qed
    have ki': "key_inv key ?w' ?l"
      unfolding key_inv_def using kc' ks' by (simp add: NewMemTable_def)
    from r fr' ki' show ?thesis by blast
  qed
qed

lemma Compaction_step:
  assumes fr: "engine_frame dir used w n" and ki: "key_inv key w l"
    and t: "triggerCompaction env w = Some w'"
  shows "engine_frame dir used w' n \<and> key_inv key w' l"
proof -
  have "filepath_Join (dataDir (tree w)) (compacted_name (now env 0)) \<notin> dirs (disk w)"
    using fr by (simp add: engine_frame_def)
  from triggerCompaction_unchanged[OF this t] have "w' = w\<lparr>compactions := compactions w - 1\<rparr>" .
  then show ?thesis using fr ki by (simp add: engine_frame_def key_inv_def)
qed

lemma run_inv:
  "engine_frame dir used w n \<Longrightarrow> key_inv key w l \<Longrightarrow> distinct (flush_times steps) \<Longrightarrow>
   set (flush_times steps) \<inter> used = {} \<Longrightarrow>
   \<exists>w'. run w steps = Some w'
        \<and> engine_frame dir (used \<union> set (flush_times steps)) w' (n + count_Sets steps)
        \<and> key_inv key w' (last_write key l steps)"
proof (induction steps arbitrary: w n l used)
  case Nil
  then show ?case by simp
next
  case (Cons st steps)
  show ?case
  proof (cases st)
    case (DoSet env k v)
    have fresh: "now env 1 \<notin> used" using Cons.prems(4) DoSet by simp
    from Set_step[OF Cons.prems(1,2) fresh, of k v] obtain w1 where
      s: "LSMTree_Set env k v w = Some (None, w1)"
      and f1: "engine_frame dir (insert (now env 1) used) w1 (Suc n)"
      and k1: "key_inv key w1 (if k = key then Some v else l)" by blast
    have d: "distinct (flush_times steps)" using Cons.prems(3) DoSet by simp
    have i: "set (flush_times steps) \<inter> insert (now env 1) used = {}"
      using Cons.prems(3,4) DoSet by auto
    from Cons.IH[OF f1 k1 d i] obtain w' where
      r: "run w1 steps = Some w'"
      and f: "engine_frame dir (insert (now env 1) used \<union> set (flush_times steps)) w' (Suc n + count_Sets steps)"
      and k: "key_inv key w' (last_write key (if k = key then Some v else l) steps)" by blast
    have u: "insert (now env 1) used \<union> set (flush_times steps) = used \<union> set (flush_times (st # steps))"
      using DoSet by auto
    show ?thesis using r f k s unfolding u by (simp add: DoSet)
  next
    case (DoCompaction env)
    have d: "distinct (flush_times steps)" "set (flush_times steps) \<inter> used = {}"
      using Cons.prems(3,4) DoCompaction by simp_all
    show ?thesis
    proof (cases "triggerCompaction env w")
      case None
      from Cons.IH[OF Cons.prems(1,2) d] show ?thesis using None by (simp add: DoCompaction)
    next
      case (Some w1)
      from Compaction_step[OF Cons.prems(1,2) Some] have "engine_frame dir used w1 n" "key_inv key w1 l"
        by simp_all
      from Cons.IH[OF this d] show ?thesis using Some by (simp add: DoCompaction)
    qed
  qed
qed

lemma fresh_inv:
  assumes "dir \<in> dirs fs" and "\<forall>name. filepath_Join dir name \<notin> dirs fs"
  shows "engine_frame dir {} (fresh dir fs) 0" and "key_inv key (fresh dir fs) None"
  using assms
  by (simp_all add: engine_frame_def key_inv_def fresh_def NewLSMTree_def NewMemTable_def NewCache_def)

lemma Get_last:
  assumes fr: "engine_frame dir used w n" and ki: "key_inv key w (Some v)"
    and ok: "(v \<noteq> '''' \<and> line_ok key v) \<or> n < memTableSizeThreshold"
  shows "map_option fst (LSMTree_Get env key w) = Some (v, None)"
proof -
  from fr have mu: "mutex (tree w) = Unlocked"
    and segs: "ssTables (tree w) \<noteq> [] \<Longrightarrow> memTableSizeThreshold \<le> n"
    by (auto simp: engine_frame_def)
  from ki have kc: "\<And>e. map_of (entries (cache (tree w))) key = Some e \<Longrightarrow> value_e e = v"
    and km: "\<And>x. map_of (data (memTable (tree w))) key = Some x \<Longrightarrow> x = v"
    and ks: "map_of (data (memTable (tree w))) key = None \<Longrightarrow>
         \<exists>older s newer. ssTables (tree w) = older @ [s] @ newer \<and>
            (\<forall>s' \<in> set newer. map_of (index s') key = None) \<and> sst_holds (disk w) s key v"
    by (auto simp: key_inv_def)
  let ?w = "w\<lparr>tree := (tree w)\<lparr>mutex := RLocked 0\<rparr>\<rparr>"
  have "fst (Get_locked env key ?w) = (v, None)"
  proof (cases "map_of (entries (cache (tree w))) key")
    case (Some e)
    then show ?thesis using kc[OF Some] by (simp add: Get_locked_def cache_Get_def)
  next
    case c: None
    show ?thesis
    proof (cases "map_of (data (memTable (tree w))) key")
      case (Some x)
      then show ?thesis using km[OF Some] c by (simp add: Get_locked_def cache_Get_def MemTable_Get_def)
    next
      case None
      from ks[OF None] obtain older s newer where
        o: "ssTables (tree w) = older @ [s] @ newer" "\<forall>s' \<in> set newer. map_of (index s') key = None"
        "sst_holds (disk w) s key v" by blast
      then have "ssTables (tree w) \<noteq> []" by simp
      from segs[OF this] ok have v: "line_ok key v" "v \<noteq> []" by auto
      have r: "rev (ssTables (tree w)) = rev newer @ s # rev older" using o(1) by simp
      have h: "sst_holds (disk ?w) s key v" using o(3) by simp
      show ?thesis
        using c None Get_ssTables_newest[OF o(2) h v, of env "rev older"]
        by (simp add: Get_locked_def cache_Get_def MemTable_Get_def r del: rev_append)
    qed
  qed
  then show ?thesis using mu by (auto simp: LSMTree_Get_def split: prod.splits)
qed

text \<open>
  \<^bold>\<open>Claim C1\<close> (read-your-writes), as amended. The engine starts on a data
  directory that exists and has no subdirectory. Take any run of \<open>Set\<close> operations,
  with the compaction goroutines running whenever the scheduler lets them, in which the
  clock readings that name the segment files differ from each other. Every \<open>Set\<close> of
  the run succeeds, and a final \<open>Get\<close> of a key returns the last value written for it
  in two cases: when that value is not empty and its entry can be read back from its
  line, whatever has been flushed to segments; and for every value, a tombstone
  included, when the run has fewer calls of \<open>Set\<close> than the flush threshold, so that
  nothing has been flushed.
\<close>

theorem read_your_writes:
  assumes "dir \<in> dirs fs" and "\<forall>name. filepath_Join dir name \<notin> dirs fs"
    and "distinct (flush_times steps)"
    and "last_write key None steps = Some val"
    and "(val \<noteq> '''' \<and> line_ok key val) \<or> count_Sets steps < memTableSizeThreshold"
  shows "\<exists>w. run (fresh dir fs) steps = Some w
           \<and> map_option fst (LSMTree_Get env key w) = Some (val, None)"
proof -
  from run_inv[OF fresh_inv[OF assms(1,2)] assms(3), of key] obtain w where
    r: "run (fresh dir fs) steps = Some w"
    and f: "engine_frame dir ({} \<union> set (flush_times steps)) w (0 + count_Sets steps)"
    and k: "key_inv key w (last_write key None steps)" by auto
  have ok: "(val \<noteq> '''' \<and> line_ok key val) \<or> 0 + count_Sets steps < memTableSizeThreshold"
    using assms(5) by simp
  from Get_last[OF f k[unfolded assms(4)] ok] r show ?thesis by blast
qed

theorem read_your_writes_witness:
  "dir0 \<in> dirs fs0
   \<and> distinct (flush_times [DoSet env0 ''k'' ''v'', DoCompaction env0, DoSet env1 ''k'' ''w''])
   \<and> last_write ''k'' None [DoSet env0 ''k'' ''v'', DoCompaction env0, DoSet env1 ''k'' ''w''] = Some ''w''
   \<and> count_Sets [DoSet env0 ''k'' ''v'', DoCompaction env0, DoSet env1 ''k'' ''w''] < memTableSizeThreshold
   \<and> (\<exists>w. run (fresh dir0 fs0) [DoSet env0 ''k'' ''v'', DoCompaction env0, DoSet env1 ''k'' ''w''] = Some w
          \<and> map_option fst (LSMTree_Get env0 ''k'' w) = Some (''w'', None))"
proof -
  let ?steps = "[DoSet env0 ''k'' ''v'', DoCompaction env0, DoSet env1 ''k'' ''w'']"
  have 1: "dir0 \<in> dirs fs0" by (simp add: fs0_def)
  have 2: "\<forall>name. filepath_Join dir0 name \<notin> dirs fs0" by (simp add: fs0_def filepath_Join_def)
  have 3: "distinct (flush_times ?steps)" by (simp add: env0_def env1_def)
  have 4: "last_write ''k'' None ?steps = Some ''w''" by simp
  have 5: "count_Sets ?steps < memTableSizeThreshold" by (simp add: memTableSizeThreshold_def)
  then have 6: "(''w'' \<noteq> '''' \<and> line_ok ''k'' ''w'') \<or> count_Sets ?steps < memTableSizeThreshold" ..
  from read_your_writes[OF 1 2 3 4 6, of env0] 1 3 4 5 show ?thesis by blast
qed

subsection \<open>A run that reaches the flush threshold\<close>

lemma run_append:
  "run w (xs @ ys) = (case run w xs of Some w' \<Rightarrow> run w' ys | None \<Rightarrow> None)"
proof (induction xs arbitrary: w)
  case Nil
  then show ?case by simp
next
  case (Cons x xs)
  show ?case
  proof (cases x)
    case (DoSet env k v)
    then show ?thesis using Cons.IH by (simp split: option.splits prod.splits)
  next
    case (DoCompaction env)
    then show ?thesis using Cons.IH by (simp split: option.splits)
  qed
qed

lemma filler_inj: "filler i = filler j \<Longrightarrow> i = j"
  by (simp add: filler_def digits_inj del: digits.simps)

lemma filler_not_k: "filler i \<noteq> ''k''"
  by (simp add: filler_def del: digits.simps)

lemma fill_keys_Suc: "1 \<le> j \<Longrightarrow> fill_keys (Suc j) = fill_keys j @ [filler j]"
  by (simp add: fill_keys_def)

lemma filler_fresh: "filler j \<notin> set (fill_keys j)"
  using filler_not_k by (auto simp: fill_keys_def dest: filler_inj)

lemma length_fill_keys: "1 \<le> j \<Longrightarrow> length (fill_keys j) = j"
  by (simp add: fill_keys_def)

lemma update_fresh: "k \<notin> fst ` set al \<Longrightarrow> AList.update k v al = al @ [(k, v)]"
  by (induction al) auto

lemma evict_step_ones:
  "\<forall>x \<in> set rest. snd x = 1 \<Longrightarrow> foldl evict_step (k, 1) rest = (k, 1)"
  by (induction rest) (auto simp: evict_step_def)

lemma evict_first:
  assumes "\<forall>x \<in> set rest. snd x = 1"
  shows "fst (foldl evict_step ('''', MaxInt) ((k, 1) # rest)) = k"
proof -
  have "(1 :: 64 word) <s MaxInt" by (simp add: word_sless_alt sint_MaxInt)
  then have "evict_step ('''', MaxInt) (k, 1) = (k, 1)" by (simp add: evict_step_def)
  then show ?thesis using evict_step_ones[OF assms] by simp
qed

lemma cache_Set_keeps_out:
  assumes "key \<notin> fst ` set (entries c)" and "k \<noteq> key"
  shows "key \<notin> fst ` set (entries (cache_Set ord t k v c))"
proof -
  have "fst ` set (AList.delete la (entries c)) \<subseteq> fst ` set (entries c)" for la
    by (rule AList.dom_delete_subset)
  then have "key \<notin> fst ` set (entries (if int (length (entries c)) \<ge> maxSize c then evict ord c else c))"
    using assms(1) by (auto simp: evict_def Let_def)
  then show ?thesis using assms(2) by (simp add: cache_Set_def Let_def AList.dom_update)
qed

lemma cache_fill_step:
  assumes "1 \<le> j" and m: "maxSize c = 1000"
    and "if j \<le> 1000
         then accessCount c = map (\<lambda>k. (k, 1)) (fill_keys j) \<and> map fst (entries c) = fill_keys j
         else ''k'' \<notin> fst ` set (entries c)"
  shows "maxSize (cache_Set [] t (filler j) v c) = 1000 \<and>
         (if Suc j \<le> 1000
          then accessCount (cache_Set [] t (filler j) v c) = map (\<lambda>k. (k, 1)) (fill_keys (Suc j)) \<and>
               map fst (entries (cache_Set [] t (filler j) v c)) = fill_keys (Suc j)
          else ''k'' \<notin> fst ` set (entries (cache_Set [] t (filler j) v c)))"
proof -
  have ms: "maxSize (cache_Set [] t (filler j) v c) = 1000"
    using m by (simp add: cache_Set_def Let_def evict_def)
  consider (small) "j < 1000" | (full) "j = 1000" | (large) "j > 1000" by linarith
  then have "if Suc j \<le> 1000
          then accessCount (cache_Set [] t (filler j) v c) = map (\<lambda>k. (k, 1)) (fill_keys (Suc j)) \<and>
               map fst (entries (cache_Set [] t (filler j) v c)) = fill_keys (Suc j)
          else ''k'' \<notin> fst ` set (entries (cache_Set [] t (filler j) v c))"
  proof cases
    case small
    then have a: "accessCount c = map (\<lambda>k. (k, 1)) (fill_keys j)" and e: "map fst (entries c) = fill_keys j"
      using assms(3) by simp_all
    have len: "length (entries c) = j" using e length_fill_keys[OF assms(1)] by (metis length_map)
    have noev: "\<not> int (length (entries c)) \<ge> maxSize c" using len small m by simp
    have f1: "filler j \<notin> fst ` set (accessCount c)" using filler_fresh[of j] a by (simp add: image_image)
    have f2: "filler j \<notin> fst ` set (entries c)" using filler_fresh[of j] e by (metis list.set_map)
    have "accessCount (cache_Set [] t (filler j) v c) = accessCount c @ [(filler j, 1)]"
      using noev by (simp add: cache_Set_def update_fresh[OF f1])
    moreover have "map fst (entries (cache_Set [] t (filler j) v c)) = map fst (entries c) @ [filler j]"
      using noev by (simp add: cache_Set_def update_fresh[OF f2])
    ultimately show ?thesis using small a e by (simp add: fill_keys_Suc[OF assms(1)])
  next
    case full
    then have a: "accessCount c = map (\<lambda>k. (k, 1)) (fill_keys j)" and e: "map fst (entries c) = fill_keys j"
      using assms(3) by simp_all
    have len: "length (entries c) = j" using e length_fill_keys[OF assms(1)] by (metis length_map)
    have ev: "int (length (entries c)) \<ge> maxSize c" using len full m by simp
    have ac: "accessCount c = (''k'', 1) # map (\<lambda>k. (k, 1)) (map filler [1..<j])"
      using a by (simp add: fill_keys_def)
    have "fst (foldl evict_step ('''', MaxInt) (accessCount c)) = ''k''"
      unfolding ac by (rule evict_first) auto
    then have "entries (evict [] c) = AList.delete ''k'' (entries c)"
      by (simp add: evict_def Let_def)
    then have "''k'' \<notin> fst ` set (entries (evict [] c))" by (simp add: AList.delete_notin_dom)
    then have "''k'' \<notin> fst ` set (entries (cache_Set [] t (filler j) v c))"
      using ev filler_not_k[of j] by (simp add: cache_Set_def Let_def AList.dom_update)
    then show ?thesis using full by simp
  next
    case large
    then have "''k'' \<notin> fst ` set (entries c)" using assms(3) by simp
    from cache_Set_keeps_out[OF this filler_not_k] show ?thesis using large by simp
  qed
  with ms show ?thesis by blast
qed

lemma thr_big: "1000 < memTableSizeThreshold"
  by (simp add: memTableSizeThreshold_def)

lemma distinct_fill_keys: "distinct (fill_keys j)"
  by (auto simp: fill_keys_def distinct_map inj_on_def filler_not_k[symmetric] dest: filler_inj)

lemma fill_steps_Suc:
  "a \<le> b \<Longrightarrow> fill_steps a (Suc b) = fill_steps a b @ [DoSet (env_at (int b)) (filler b) ''x'']"
  by (simp add: fill_steps_def)

lemma flush_times_map:
  "flush_times (map (\<lambda>i. DoSet (f i) (g i) (h i)) xs) = map (\<lambda>i. now (f i) 1) xs"
  by (induction xs) simp_all

lemma last_write_map:
  "\<forall>i \<in> set xs. g i \<noteq> key \<Longrightarrow> last_write key l (map (\<lambda>i. DoSet (f i) (g i) (h i)) xs) = l"
  by (induction xs arbitrary: l) simp_all

lemma fill_step:
  assumes inv: "fill_inv j w" and j1: "1 \<le> j" and jN: "j < memTableSizeThreshold"
  shows "\<exists>w'. LSMTree_Set (env_at (int j)) (filler j) ''x'' w = Some (None, w') \<and> fill_inv (Suc j) w'"
proof -
  let ?k = "filler j"
  define c' where "c' = cache_Set [] (int j) ?k ''x'' (cache (tree w))"
  from inv jN have mu: "mutex (tree w) = Unlocked" and wa: "wal (tree w) = NewWAL dir0"
    and dd: "dataDir (tree w) = dir0" and di: "dirs (disk w) = {dir0}"
    and ms: "maxSize (cache (tree w)) = 1000"
    and mk: "map fst (data (memTable (tree w))) = fill_keys j" and ss: "ssTables (tree w) = []"
    and ca: "if j \<le> 1000
         then accessCount (cache (tree w)) = map (\<lambda>k. (k, 1)) (fill_keys j) \<and>
              map fst (entries (cache (tree w))) = fill_keys j
         else ''k'' \<notin> fst ` set (entries (cache (tree w)))"
    by (simp_all add: fill_inv_def)
  have a1: "dir0 \<in> dirs (disk w)" and a2: "filepath_Join dir0 ''wal.log'' \<notin> dirs (disk w)"
    using di by (simp_all add: filepath_Join_def)
  from WAL_Log_ok[OF a1 a2, of ?k "''x''"] obtain fs1 where
    all1: "WAL_Log (NewWAL dir0) ?k ''x'' (disk w) = (None, fs1) \<and> dirs fs1 = dirs (disk w) \<and>
           (\<forall>p. p \<noteq> filepath_Join dir0 ''wal.log'' \<longrightarrow> files fs1 p = files (disk w) p)" ..
  then have wl: "WAL_Log (wal (tree w)) ?k ''x'' (disk w) = (None, fs1)" and d1: "dirs fs1 = {dir0}"
    using wa di by simp_all
  have fr: "?k \<notin> fst ` set (data (memTable (tree w)))"
    using filler_fresh[of j] mk by (metis list.set_map)
  have up: "AList.update ?k ''x'' (data (memTable (tree w))) = data (memTable (tree w)) @ [(?k, ''x'')]"
    by (rule update_fresh[OF fr])
  have len: "length (data (memTable (tree w))) = j"
    using mk length_fill_keys[OF j1] by (metis length_map)
  have cs: "maxSize c' = 1000 \<and>
         (if Suc j \<le> 1000
          then accessCount c' = map (\<lambda>k. (k, 1)) (fill_keys (Suc j)) \<and>
               map fst (entries c') = fill_keys (Suc j)
          else ''k'' \<notin> fst ` set (entries c'))"
    unfolding c'_def by (rule cache_fill_step[OF j1 ms ca])
  show ?thesis
  proof (cases "Suc j < memTableSizeThreshold")
    case True
    have nf: "\<not> memTableSizeThreshold \<le> length (AList.update ?k ''x'' (data (memTable (tree w))))"
      using True len by (simp add: up)
    let ?w' = "w\<lparr>tree := (tree w)\<lparr>memTable := MemTable_Set ?k ''x'' (memTable (tree w)), cache := c'\<rparr>,
                  disk := fs1\<rparr>"
    have r: "LSMTree_Set (env_at (int j)) ?k ''x'' w = Some (None, ?w')"
      using Set_result_noflush[OF mu wl nf, of "env_at (int j)"] by (simp add: env_at_def c'_def)
    have "fill_inv (Suc j) ?w'"
      using cs True
      by (simp add: fill_inv_def mu wa dd d1 ss MemTable_Set_def up mk fill_keys_Suc[OF j1])
    with r show ?thesis by blast
  next
    case False
    then have e: "Suc j = memTableSizeThreshold" using jN by simp
    have fl: "memTableSizeThreshold \<le> length (AList.update ?k ''x'' (data (memTable (tree w))))"
      using e len by (simp add: up)
    have dist: "distinct (map fst (data (MemTable_Set ?k ''x'' (memTable (tree w)))))"
      using distinct_fill_keys[of j] filler_fresh[of j] by (simp add: MemTable_Set_def up mk)
    have b1: "dir0 \<in> dirs fs1" and b2: "filepath_Join dir0 (sstable_name (int j)) \<notin> dirs fs1"
      using d1 by (simp_all add: filepath_Join_def)
    let ?P = "\<lambda>s content. NewSSTable dir0 [] (int j) (MemTable_Set ?k ''x'' (memTable (tree w))) fs1
            = (Inr s, fs1\<lparr>files := (files fs1)(filepath_Join dir0 (sstable_name (int j)) \<mapsto> content)\<rparr>)"
    from NewSSTable_holds[OF dist b1 b2, of "[]"] obtain s where "\<exists>content. ?P s content \<and>
        filePath s = filepath_Join dir0 (sstable_name (int j))
          \<and> fst ` set (index s) = fst ` set (data (MemTable_Set ?k ''x'' (memTable (tree w))))
          \<and> (\<forall>x \<in> set (data (MemTable_Set ?k ''x'' (memTable (tree w)))).
                sst_holds (fs1\<lparr>files := (files fs1)(filepath_Join dir0 (sstable_name (int j)) \<mapsto> content)\<rparr>)
                  s (fst x) (snd x))" ..
    then obtain content where all2: "?P s content \<and>
        filePath s = filepath_Join dir0 (sstable_name (int j))
          \<and> fst ` set (index s) = fst ` set (data (MemTable_Set ?k ''x'' (memTable (tree w))))
          \<and> (\<forall>x \<in> set (data (MemTable_Set ?k ''x'' (memTable (tree w)))).
                sst_holds (fs1\<lparr>files := (files fs1)(filepath_Join dir0 (sstable_name (int j)) \<mapsto> content)\<rparr>)
                  s (fst x) (snd x))" ..
    then have n: "?P s content" by simp
    let ?fs2 = "fs1\<lparr>files := (files fs1)(filepath_Join dir0 (sstable_name (int j)) \<mapsto> content)\<rparr>"
    let ?w' = "w\<lparr>tree := (tree w)\<lparr>memTable := NewMemTable, ssTables := ssTables (tree w) @ [s],
                                   cache := c'\<rparr>,
                  disk := ?fs2, compactions := Suc (compactions w)\<rparr>"
    have r: "LSMTree_Set (env_at (int j)) ?k ''x'' w = Some (None, ?w')"
      using Set_result_flush[OF mu wl fl, of "env_at (int j)" s ?fs2] n dd
      by (simp add: env_at_def c'_def)
    have big: "\<not> Suc j \<le> 1000" using e thr_big by simp
    have "fill_inv (Suc j) ?w'"
      using cs big e
      by (simp add: fill_inv_def mu wa dd d1 NewMemTable_def)
    with r show ?thesis by blast
  qed
qed

lemma fill_base:
  "\<exists>w1. LSMTree_Set (env_at 0) ''k'' val (fresh dir0 fs0) = Some (None, w1) \<and> fill_inv 1 w1"
proof -
  let ?w = "fresh dir0 fs0"
  have mu: "mutex (tree ?w) = Unlocked" by (simp add: fresh_def NewLSMTree_def)
  have a1: "dir0 \<in> dirs (disk ?w)" and a2: "filepath_Join dir0 ''wal.log'' \<notin> dirs (disk ?w)"
    by (simp_all add: fresh_def fs0_def filepath_Join_def)
  from WAL_Log_ok[OF a1 a2, of "''k''" val] obtain fs1 where
    all1: "WAL_Log (NewWAL dir0) ''k'' val (disk ?w) = (None, fs1) \<and> dirs fs1 = dirs (disk ?w) \<and>
           (\<forall>p. p \<noteq> filepath_Join dir0 ''wal.log'' \<longrightarrow> files fs1 p = files (disk ?w) p)" ..
  then have wl: "WAL_Log (wal (tree ?w)) ''k'' val (disk ?w) = (None, fs1)" and d1: "dirs fs1 = {dir0}"
    by (simp_all add: fresh_def NewLSMTree_def fs0_def)
  have nf: "\<not> memTableSizeThreshold \<le> length (AList.update ''k'' val (data (memTable (tree ?w))))"
    by (simp add: fresh_def NewLSMTree_def NewMemTable_def memTableSizeThreshold_def)
  note r = Set_result_noflush[OF mu wl nf, of "env_at 0"]
  have "fill_inv 1 (?w\<lparr>tree := (tree ?w)\<lparr>memTable := MemTable_Set ''k'' val (memTable (tree ?w)),
                                          cache := cache_Set (order (env_at 0) 0) (now (env_at 0) 0) ''k'' val (cache (tree ?w))\<rparr>,
                          disk := fs1\<rparr>)"
    using d1
    by (simp add: fill_inv_def fresh_def NewLSMTree_def NewMemTable_def MemTable_Set_def
        cache_Set_def NewCache_def fill_keys_def memTableSizeThreshold_def Let_def)
  with r show ?thesis by blast
qed

lemma fill_run:
  assumes "fill_inv 1 w1"
  shows "1 \<le> b \<Longrightarrow> b \<le> memTableSizeThreshold \<Longrightarrow>
         \<exists>w. run w1 (fill_steps 1 b) = Some w \<and> fill_inv b w"
proof (induction b)
  case 0
  then show ?case by simp
next
  case (Suc b)
  show ?case
  proof (cases "b = 0")
    case True
    then show ?thesis using assms by (simp add: fill_steps_def)
  next
    case False
    then have b1: "1 \<le> b" and bN: "b < memTableSizeThreshold" using Suc.prems by simp_all
    from Suc.IH[OF b1] bN obtain w where w: "run w1 (fill_steps 1 b) = Some w" "fill_inv b w" by auto
    from fill_step[OF w(2) b1 bN] obtain w' where
      w': "LSMTree_Set (env_at (int b)) (filler b) ''x'' w = Some (None, w')" "fill_inv (Suc b) w'" by auto
    have "run w1 (fill_steps 1 (Suc b)) = Some w'"
      unfolding fill_steps_Suc[OF b1] run_append w(1) using w'(1) by simp
    with w'(2) show ?thesis by blast
  qed
qed

lemma Get_ssTables_first:
  assumes "\<forall>s' \<in> set newer. map_of (index s') key = None"
    and "SSTable_Get key s (disk w) = Inr val" and "val \<noteq> ''''"
  shows "fst (Get_ssTables env key (rev newer @ s # rest) w) = (val, None)"
  using assms(1)
proof (induction newer rule: rev_induct)
  case Nil
  then show ?case using assms(2,3) by simp
next
  case (snoc x xs)
  then show ?case by (simp add: SSTable_Get_absent)
qed

lemma SSTable_Get_two_lines:
  assumes h: "sst_holds fs s ''k'' two_lines"
  shows "SSTable_Get ''k'' s fs = Inr ''a''"
proof -
  from h obtain off content where
    b: "MightContain (bloomFilter s) ''k''" and i: "map_of (index s) ''k'' = Some off"
    and f: "files fs (filePath s) = Some content"
    and t: "take (length (entry_line ''k'' two_lines)) (drop off content) = entry_line ''k'' two_lines"
    by (auto simp: sst_holds_def split: option.splits)
  have "drop off content = entry_line ''k'' two_lines @ drop (length (entry_line ''k'' two_lines)) (drop off content)"
    using t by (metis append_take_drop_id)
  then obtain rest where r: "drop off content = entry_line ''k'' two_lines @ rest" by blast
  show ?thesis
    using b i f by (simp add: SSTable_Get_def r runtime_defs two_lines_def)
qed

text \<open>
  The claim as stated, for every value, fails. A fresh engine runs \<open>flush_trace\<close> with
  the value \<^verbatim>\<open>a\nb\<close> for the key \<^verbatim>\<open>k\<close>: every \<open>Set\<close> succeeds, the last one
  flushes the buffer into a segment, and by then the cache has evicted \<^verbatim>\<open>k\<close>. The final
  \<open>Get\<close> reads the entry back from the segment file and returns \<^verbatim>\<open>a\<close>.
\<close>

theorem read_your_writes_counterexample:
  "last_write ''k'' None (flush_trace two_lines) = Some two_lines
   \<and> (\<exists>w. run (fresh dir0 fs0) (flush_trace two_lines) = Some w
          \<and> map_option fst (LSMTree_Get env0 ''k'' w) = Some (''a'', None))
   \<and> ''a'' \<noteq> two_lines"
proof -
  let ?N = memTableSizeThreshold
  have lw: "last_write ''k'' None (flush_trace two_lines) = Some two_lines"
    by (simp add: flush_trace_def fill_steps_def last_write_map filler_not_k)
  have ft: "flush_times (flush_trace two_lines) = 0 # map int [1..<?N]"
    by (simp add: flush_trace_def fill_steps_def flush_times_map env_at_def)
  have di: "distinct (flush_times (flush_trace two_lines))"
    unfolding ft by (auto simp: distinct_map inj_on_def)
  have a1: "dir0 \<in> dirs fs0" and a2: "\<forall>name. filepath_Join dir0 name \<notin> dirs fs0"
    by (simp_all add: fs0_def filepath_Join_def)
  from run_inv[OF fresh_inv(1)[OF a1 a2] fresh_inv(2)[OF a1 a2] di, of "''k''"] obtain w where
    rw: "run (fresh dir0 fs0) (flush_trace two_lines) = Some w"
    and ki: "key_inv ''k'' w (last_write ''k'' None (flush_trace two_lines))" by auto
  from fill_base[of two_lines] obtain w1 where
    w1: "LSMTree_Set (env_at 0) ''k'' two_lines (fresh dir0 fs0) = Some (None, w1)" "fill_inv 1 w1"
    by auto
  from fill_run[OF w1(2), of ?N] thr_big obtain w2 where
    w2: "run w1 (fill_steps 1 ?N) = Some w2" "fill_inv ?N w2" by auto
  have "run (fresh dir0 fs0) (flush_trace two_lines) = Some w2"
    using w1(1) w2(1) by (simp add: flush_trace_def)
  with rw have eq: "w2 = w" by simp
  from w2(2) eq thr_big have mu: "mutex (tree w) = Unlocked" and em: "data (memTable (tree w)) = []"
    and nc: "''k'' \<notin> fst ` set (entries (cache (tree w)))"
    by (simp_all add: fill_inv_def)
  from ki lw em obtain older s newer where
    o: "ssTables (tree w) = older @ [s] @ newer" "\<forall>s' \<in> set newer. map_of (index s') ''k'' = None"
      "sst_holds (disk w) s ''k'' two_lines"
    by (auto simp: key_inv_def)
  let ?w = "w\<lparr>tree := (tree w)\<lparr>mutex := RLocked 0\<rparr>\<rparr>"
  have c: "map_of (entries (cache (tree w))) ''k'' = None" using nc by (simp add: map_of_None_keys)
  have r: "rev (ssTables (tree w)) = rev newer @ s # rev older" using o(1) by simp
  have g: "SSTable_Get ''k'' s (disk ?w) = Inr ''a''" using SSTable_Get_two_lines[OF o(3)] by simp
  have "fst (Get_locked env0 ''k'' ?w) = (''a'', None)"
    using c em Get_ssTables_first[OF o(2) g, of env0 "rev older"]
    by (simp add: Get_locked_def cache_Get_def MemTable_Get_def r del: rev_append)
  then have "map_option fst (LSMTree_Get env0 ''k'' w) = Some (''a'', None)"
    using mu by (auto simp: LSMTree_Get_def split: prod.splits)
  with rw lw show ?thesis by (auto simp: two_lines_def)
qed

section \<open>Delete after Set\<close>

text \<open>
  \<^bold>\<open>Claim C2\<close> (tombstone masking). The claim says that after \<open>Set\<close> of a key and
  \<open>Delete\<close> of the same key, \<open>Get\<close> returns the empty string and \<open>List\<close> does not
  contain the key. In the code the state after \<open>Delete\<close> is never reached: in the state
  that a successful \<open>Set\<close> leaves, \<open>Delete\<close> of the key does not return, whatever the
  runtime chooses during its calls of \<open>Get\<close> and \<open>Set\<close>.
\<close>

theorem Delete_after_Set_never_returns:
  assumes "LSMTree_Set env key val w = Some (None, w')"
  shows "LSMTree_Delete env_g env_s key w' = None"
  by (cases "mutex (tree w')") (simp_all add: LSMTree_Delete_def LSMTree_Get_def)

theorem Delete_after_Set_never_returns_witness:
  "\<exists>w'. LSMTree_Set env0 ''k'' ''v'' (fresh dir0 fs0) = Some (None, w')
        \<and> LSMTree_Delete env0 env0 ''k'' w' = None"
proof -
  have "\<exists>w'. LSMTree_Set env0 ''k'' ''v'' (fresh dir0 fs0) = Some (None, w')"
    by (simp add: engine_defs runtime_defs input_defs)
  then obtain w' where s: "LSMTree_Set env0 ''k'' ''v'' (fresh dir0 fs0) = Some (None, w')" ..
  from Delete_after_Set_never_returns[OF s, where env_g = env0 and env_s = env0] s show ?thesis by blast
qed

section \<open>Recovery after a restart\<close>

















lemma length_writes: "length (writes steps) = count_Sets steps"
  by (induction steps rule: writes.induct) simp_all




text \<open>
  Why the amended claim asks for entries that can be read back: the log stores the line
  \<^verbatim>\<open>a,b,c\<close> for the key \<^verbatim>\<open>a,b\<close> with the value \<^verbatim>\<open>c\<close>, and \<open>Recover\<close> reads it
  as the key \<^verbatim>\<open>a\<close> with the value \<^verbatim>\<open>b,c\<close>.
\<close>

lemma comma_in_key_not_recovered:
  "\<exists>w w'.
      run (fresh dir0 fs0) [DoSet env0 ''a,b'' ''c''] = Some w
    \<and> LSMTree_Recover env0 (restart w) = Some (None, w')
    \<and> map_option fst (LSMTree_Get env0 ''a,b'' w) = Some (''c'', None)
    \<and> map_option fst (LSMTree_Get env0 ''a,b'' w') = Some ('''', None)
    \<and> map_option fst (LSMTree_Get env0 ''a'' w') = Some (''b,c'', None)"
  by (simp add: engine_defs runtime_defs input_defs)

end
